theory Spec2Isabelle
  imports Main
begin

section \<open>Values, objects and the store\<close>

text \<open>
  The library works on JavaScript objects: it installs hidden fields on them in place
  (\<^verbatim>\<open>define_property.mut\<close>), copies them (\<^verbatim>\<open>update\<close>) and stores closures in their
  fields. Object identity matters, so objects live in an explicit store and a value
  refers to one by its address. Function values are first order here: one constructor
  for every function or closure of \<^verbatim>\<open>index.js\<close> and \<^verbatim>\<open>index.mjs\<close> that ends up
  in a field or is passed as an argument, holding the variables the closure captured.
  A function supplied by the caller (an updater, a replacement for \<^verbatim>\<open>propagate\<close>) is
  \<open>F_user i\<close>: entry \<open>i\<close> of an environment of functions that read the store and their
  argument and return a value. Plain data (a state payload, the tracking array and its
  entries) are immutable values.
\<close>

type_synonym ref = nat

datatype sym =
    Commutes_symbol
  | Propagates_symbol
  | tracking_symbol
  | tracked_child nat string

datatype pkey = KStr string | KSym sym

datatype val =
    VUndef
  | VNum int
  | VStr string
  | VSym sym
  | VArr "val list"
  | VObj "(string \<times> val) list"
  | VRef ref
  | F_commute
  | F_proxy_commute
  | F_propagating_commute val
  | F_id
  | F_propagate_up sym val
  | F_propagate_up_js string val
  | F_override_propagate_using_parent_context sym
  | F_user nat

datatype slot = Data val | Getter val

text \<open>
  A property descriptor as the source builds it: \<^verbatim>\<open>d.nothing({ v: x })\<close> is
  \<open>d_nothing (Data x)\<close>, \<^verbatim>\<open>d.enumerable({ g: f })\<close> is \<open>d_enumerable (Getter f)\<close>.
\<close>

datatype descriptor =
    d_nothing slot
  | d_configurable slot
  | d_non_writable slot
  | d_enumerable slot

type_synonym obj = "pkey \<Rightarrow> slot option"

record jstate =
  heap :: "ref \<Rightarrow> obj"
  nxt :: nat
  symctr :: nat
  diag :: "string list"

datatype 'a res = Done 'a | TypeError | Timeout

type_synonym outcome = "(val \<times> jstate) res"

type_synonym env = "nat \<Rightarrow> jstate \<Rightarrow> val \<Rightarrow> val"

type_synonym caller = "val \<Rightarrow> val \<Rightarrow> val \<Rightarrow> jstate \<Rightarrow> outcome"

definition bind_res :: "'a res \<Rightarrow> ('a \<Rightarrow> 'b res) \<Rightarrow> 'b res" where
  "bind_res m f = (case m of Done x \<Rightarrow> f x | TypeError \<Rightarrow> TypeError | Timeout \<Rightarrow> Timeout)"

definition new_object :: "(pkey \<times> slot) list \<Rightarrow> jstate \<Rightarrow> val \<times> jstate" where
  "new_object props st =
     (VRef (nxt st), st\<lparr>heap := (heap st)(nxt st := map_of props), nxt := Suc (nxt st)\<rparr>)"

section \<open>The utilities of @prettybad/util\<close>

text \<open>
  Modelled from the spec: the functional utilities module \<^verbatim>\<open>@prettybad/util\<close> is an
  external collaborator and its source is not part of the repository. The spec (section 1)
  gives its contract: an immutable update of the value at a key that returns a new
  container with one field replaced and all others shared, property attachment in place,
  has-key and the other predicates, composition and conditional application, fold and
  append; all correct and pure. A field is a value (\<^verbatim>\<open>v\<close>) or a getter (\<^verbatim>\<open>g\<close>).
\<close>

text \<open>Modelled from the spec: \<^verbatim>\<open>has(key)(obj)\<close>, the has-key predicate.\<close>

definition has :: "pkey \<Rightarrow> val \<Rightarrow> jstate \<Rightarrow> bool" where
  "has k v st = (case v of VRef r \<Rightarrow> heap st r k \<noteq> None | _ \<Rightarrow> False)"

text \<open>
  Modelled from the spec: \<^verbatim>\<open>get(key)(obj)\<close> and the property read \<^verbatim>\<open>obj[key]\<close>. A
  getter field is called with the object as \<^verbatim>\<open>this\<close>; reading a field of
  \<^verbatim>\<open>undefined\<close> throws.
\<close>

definition get :: "caller \<Rightarrow> pkey \<Rightarrow> val \<Rightarrow> jstate \<Rightarrow> outcome" where
  "get ap k v st =
     (case v of
        VRef r \<Rightarrow>
          (case heap st r k of
             None \<Rightarrow> Done (VUndef, st)
           | Some (Data x) \<Rightarrow> Done (x, st)
           | Some (Getter g) \<Rightarrow> ap g (VRef r) VUndef st)
      | VObj kvs \<Rightarrow>
          (case k of
             KStr s \<Rightarrow> (case map_of kvs s of None \<Rightarrow> Done (VUndef, st) | Some x \<Rightarrow> Done (x, st))
           | KSym _ \<Rightarrow> Done (VUndef, st))
      | VUndef \<Rightarrow> TypeError
      | _ \<Rightarrow> Done (VUndef, st))"

text \<open>
  Modelled from the spec: \<^verbatim>\<open>define_property.mut(key)(descriptor)(obj)\<close>, property
  attachment in place; it returns the object it was given. The descriptor is passed
  as the source passes it. Defining a field that exists and cannot be redefined, with
  a descriptor that would change it, throws a TypeError. Of the fields that the library
  defines only the public \<^verbatim>\<open>commute\<close> is defined with \<^verbatim>\<open>d.nothing\<close>, neither writable nor
  configurable, and always with the value \<^verbatim>\<open>_proxy_commute\<close>; fields defined with
  \<^verbatim>\<open>d.configurable\<close>, \<^verbatim>\<open>d.non_writable\<close> or \<^verbatim>\<open>d.enumerable\<close> and the fields of the object
  literals of a caller can be redefined. The store therefore keeps the field and no
  flags: the field that cannot be redefined is \<^verbatim>\<open>commute\<close> holding
  \<^verbatim>\<open>_proxy_commute\<close>, also on the copies that \<^verbatim>\<open>update\<close> makes of the object. (A
  field \<^verbatim>\<open>commute\<close> into which a caller has put \<^verbatim>\<open>_proxy_commute\<close> by hand counts as
  not redefinable too; nothing below is claimed about tracking such a key.)
\<close>

fun field_of :: "descriptor \<Rightarrow> slot" where
  "field_of (d_nothing f) = f"
| "field_of (d_configurable f) = f"
| "field_of (d_non_writable f) = f"
| "field_of (d_enumerable f) = f"

definition fixed :: "jstate \<Rightarrow> ref \<Rightarrow> pkey \<Rightarrow> bool" where
  "fixed st r k \<longleftrightarrow> k = KStr ''commute'' \<and> heap st r k = Some (Data F_proxy_commute)"

definition define_property_mut :: "pkey \<Rightarrow> descriptor \<Rightarrow> val \<Rightarrow> jstate \<Rightarrow> outcome" where
  "define_property_mut k d v st =
     (case v of
        VRef r \<Rightarrow>
          if fixed st r k \<and> d \<noteq> d_nothing (Data F_proxy_commute) then TypeError
          else Done (v, st\<lparr>heap := (heap st)(r := (heap st r)(k \<mapsto> field_of d))\<rparr>)
      | _ \<Rightarrow> Done (v, st))"

text \<open>
  Modelled from the spec: \<^verbatim>\<open>update(key)(fn)(obj)\<close>, the immutable update: a new
  object with the field at \<open>key\<close> replaced by \<open>fn\<close> of the old value and every other field
  shared with \<open>obj\<close>, which is left as it is. The old value is read and \<open>fn\<close> is
  applied to it first; the fields of \<open>obj\<close> are copied after that. Nothing is redefined
  in place, so the update does not throw on a field that cannot be redefined.
\<close>

definition update :: "caller \<Rightarrow> pkey \<Rightarrow> (val \<Rightarrow> jstate \<Rightarrow> outcome) \<Rightarrow> val \<Rightarrow> jstate \<Rightarrow> outcome" where
  "update ap k f v st =
     (case v of
        VRef r \<Rightarrow>
          bind_res (get ap k v st) (\<lambda>(old, st1).
          bind_res (f old st1) (\<lambda>(new, st2).
            Done (VRef (nxt st2),
                  st2\<lparr>heap := (heap st2)(nxt st2 := (heap st2 r)(k \<mapsto> Data new)),
                      nxt := Suc (nxt st2)\<rparr>)))
      | _ \<Rightarrow> TypeError)"

text \<open>Modelled from the spec: \<^verbatim>\<open>push(x)(array)\<close>, append, returning a new array.\<close>

definition push :: "val \<Rightarrow> val \<Rightarrow> jstate \<Rightarrow> outcome" where
  "push x v st = (case v of VArr xs \<Rightarrow> Done (VArr (xs @ [x]), st) | _ \<Rightarrow> TypeError)"

text \<open>
  Modelled from the spec: \<^verbatim>\<open>fold(f)(initial)(list)\<close>, the left fold that calls
  \<^verbatim>\<open>f(item)(accumulator)\<close> on the items in order.
\<close>

fun fold_res :: "('k \<Rightarrow> val \<Rightarrow> jstate \<Rightarrow> outcome) \<Rightarrow> 'k list \<Rightarrow> val \<Rightarrow> jstate \<Rightarrow> outcome" where
  "fold_res f [] acc st = Done (acc, st)"
| "fold_res f (k # ks) acc st = bind_res (f k acc st) (\<lambda>(acc', st'). fold_res f ks acc' st')"

text \<open>
  \<^verbatim>\<open>console.assert(condition, message)\<close>: the diagnostic is recorded when the condition
  is false, and execution goes on.
\<close>

definition console_assert :: "bool \<Rightarrow> string \<Rightarrow> jstate \<Rightarrow> jstate" where
  "console_assert c msg st = (if c then st else st\<lparr>diag := diag st @ [msg]\<rparr>)"

fun sym_toString :: "sym \<Rightarrow> string" where
  "sym_toString Commutes_symbol = ''Symbol(commute)''"
| "sym_toString Propagates_symbol = ''Symbol(propagate)''"
| "sym_toString tracking_symbol = ''Symbol(tracking)''"
| "sym_toString (tracked_child i key) = ''Symbol(tracked_child['' @ key @ ''])''"

section \<open>The override utility\<close>

text \<open>
  \<^verbatim>\<open>override_internal(symbol)(replacement)(target)\<close>, the same in both variants: when
  the target has the field, it is replaced in place; the target is returned either way.
\<close>

definition override_internal :: "sym \<Rightarrow> val \<Rightarrow> val \<Rightarrow> jstate \<Rightarrow> outcome" where
  "override_internal symbol replacement target st =
     (let st1 = console_assert (has (KSym symbol) target st)
                  (''override_internal: '' @ sym_toString symbol @ '' does not exist!'') st;
          override_property = d_configurable (Data replacement)
      in if has (KSym symbol) target st1
         then define_property_mut (KSym symbol) override_property target st1
         else Done (target, st1))"

definition u_override_commute :: "val \<Rightarrow> val \<Rightarrow> jstate \<Rightarrow> outcome" where
  "u_override_commute override = override_internal Commutes_symbol override"

definition u_override_propagate :: "val \<Rightarrow> val \<Rightarrow> jstate \<Rightarrow> outcome" where
  "u_override_propagate override = override_internal Propagates_symbol override"

section \<open>The functions stored in fields\<close>

text \<open>
  Each takes the caller \<open>ap\<close> for the calls it makes, its captured variables, its
  argument and \<^verbatim>\<open>this\<close>. Source names that start with an underscore are written with
  the prefix \<open>u_\<close>.
\<close>

definition u_commute :: "caller \<Rightarrow> val \<Rightarrow> val \<Rightarrow> jstate \<Rightarrow> outcome" where
  "u_commute ap updater this st =
     update ap (KStr ''state'') (\<lambda>v. ap updater VUndef v) this st"

definition u_proxy_commute :: "caller \<Rightarrow> val \<Rightarrow> val \<Rightarrow> jstate \<Rightarrow> outcome" where
  "u_proxy_commute ap updater this st =
     bind_res (get ap (KSym Commutes_symbol) this st) (\<lambda>(m, st1). ap m this updater st1)"

text \<open>
  \<^verbatim>\<open>propagating_commute\<close>, the closure that \<^verbatim>\<open>_commute_wrapper(commute)\<close> returns. The
  pipeline is built when the closure is called: \<^verbatim>\<open>method_of(this)(Propagates.symbol)\<close>
  reads the field of \<^verbatim>\<open>this\<close> then, and the captured \<open>commute\<close> runs with the same
  \<^verbatim>\<open>this\<close>.
\<close>

definition propagating_commute :: "caller \<Rightarrow> val \<Rightarrow> val \<Rightarrow> val \<Rightarrow> jstate \<Rightarrow> outcome" where
  "propagating_commute ap commute updater this st =
     bind_res (get ap (KSym Propagates_symbol) this st) (\<lambda>(propagate, st1).
     bind_res (ap commute this updater st1) (\<lambda>(result, st2).
       ap propagate this result st2))"

text \<open>\<^verbatim>\<open>propagate_up\<close> of \<^verbatim>\<open>index.mjs\<close>, the closure of \<^verbatim>\<open>create_propagate_up({ symbol, context })\<close>.\<close>

definition propagate_up :: "caller \<Rightarrow> sym \<Rightarrow> val \<Rightarrow> val \<Rightarrow> jstate \<Rightarrow> outcome" where
  "propagate_up ap symbol context result st =
     update ap (KSym symbol) (\<lambda>_ st'. Done (result, st')) context st"

text \<open>\<^verbatim>\<open>propagate_up\<close> of \<^verbatim>\<open>index.js\<close>, the closure of \<^verbatim>\<open>propagate_up_create({ key, target })\<close>.\<close>

definition propagate_up_js :: "caller \<Rightarrow> string \<Rightarrow> val \<Rightarrow> val \<Rightarrow> jstate \<Rightarrow> outcome" where
  "propagate_up_js ap key target result st =
     update ap (KStr key) (\<lambda>_ st'. Done (result, st')) target st"

text \<open>
  The getter \<^verbatim>\<open>override_propagate_using_parent_context\<close> of \<^verbatim>\<open>index.mjs\<close>, made by
  \<^verbatim>\<open>create_propagate_proxy(Propagators.propagate_up)(symbol)\<close>.
\<close>

definition override_propagate_using_parent_context :: "caller \<Rightarrow> sym \<Rightarrow> val \<Rightarrow> jstate \<Rightarrow> outcome" where
  "override_propagate_using_parent_context ap symbol this st =
     (let overrider = F_propagate_up symbol this
      in bind_res (get ap (KSym symbol) this st) (\<lambda>(child, st1).
           u_override_propagate overrider child st1))"

fun body :: "caller \<Rightarrow> env \<Rightarrow> val \<Rightarrow> val \<Rightarrow> val \<Rightarrow> jstate \<Rightarrow> outcome" where
  "body ap E F_commute this a st = u_commute ap a this st"
| "body ap E F_proxy_commute this a st = u_proxy_commute ap a this st"
| "body ap E (F_propagating_commute commute) this a st = propagating_commute ap commute a this st"
| "body ap E F_id this a st = Done (a, st)"
| "body ap E (F_propagate_up symbol context) this a st = propagate_up ap symbol context a st"
| "body ap E (F_propagate_up_js key target) this a st = propagate_up_js ap key target a st"
| "body ap E (F_override_propagate_using_parent_context symbol) this a st =
     override_propagate_using_parent_context ap symbol this st"
| "body ap E (F_user i) this a st = Done (E i st a, st)"
| "body ap E _ this a st = TypeError"

text \<open>
  A call \<^verbatim>\<open>f.call(this, a)\<close> with a bound on the depth of nested calls: a field can hold
  any function, also one that calls itself through the object, so the depth is counted
  and \<open>Timeout\<close> is the call that did not return within it. Calling a value that is not a
  function throws.
\<close>

primrec call :: "nat \<Rightarrow> env \<Rightarrow> val \<Rightarrow> val \<Rightarrow> val \<Rightarrow> jstate \<Rightarrow> outcome" where
  "call 0 E f this a st = Timeout"
| "call (Suc n) E f this a st = body (call n E) E f this a st"

text \<open>The method call \<^verbatim>\<open>obj[key](a)\<close>.\<close>

definition invoke :: "nat \<Rightarrow> env \<Rightarrow> pkey \<Rightarrow> val \<Rightarrow> val \<Rightarrow> jstate \<Rightarrow> outcome" where
  "invoke n E k v a st = bind_res (get (call n E) k v st) (\<lambda>(m, st1). call n E m v a st1)"

section \<open>Commutes\<close>

text \<open>\<^verbatim>\<open>Commutes\<close> of \<^verbatim>\<open>index.js\<close>: guarded by the state key only.\<close>

definition Commutes_js :: "val \<Rightarrow> jstate \<Rightarrow> outcome" where
  "Commutes_js target st =
     (let st1 = console_assert (has (KStr ''state'') target st)
                  ''The `target` object of `Commutes` must have a state key!'' st
      in if has (KStr ''state'') target st1
         then bind_res (define_property_mut (KSym Commutes_symbol)
                          (d_configurable (Data F_commute)) target st1) (\<lambda>(t2, st2).
                define_property_mut (KStr ''commute'') (d_nothing (Data F_proxy_commute)) t2 st2)
         else Done (target, st1))"

text \<open>\<^verbatim>\<open>Commutes\<close> of \<^verbatim>\<open>index.mjs\<close>: also refuses a target that already commutes.\<close>

definition Commutes :: "val \<Rightarrow> jstate \<Rightarrow> outcome" where
  "Commutes target st =
     (let st1 = console_assert (has (KStr ''state'') target st)
                  ''The `target` object of `Commutes` must have a state key!'' st;
          st2 = console_assert (\<not> has (KSym Commutes_symbol) target st1)
                  ''Commutes: `target` is already `Commutes`!'' st1
      in if has (KStr ''state'') target st2 \<and> \<not> has (KSym Commutes_symbol) target st2
         then bind_res (define_property_mut (KSym Commutes_symbol)
                          (d_configurable (Data F_commute)) target st2) (\<lambda>(t3, st3).
                define_property_mut (KStr ''commute'') (d_nothing (Data F_proxy_commute)) t3 st3)
         else Done (target, st2))"

section \<open>Propagates\<close>

text \<open>\<^verbatim>\<open>_wrap_commute\<close> and \<^verbatim>\<open>Propagates\<close>, the same in both variants.\<close>

definition u_wrap_commute :: "caller \<Rightarrow> val \<Rightarrow> jstate \<Rightarrow> outcome" where
  "u_wrap_commute ap target st =
     bind_res (get ap (KSym Commutes_symbol) target st) (\<lambda>(commute, st1).
       (let new_commute = F_propagating_commute commute
        in u_override_commute new_commute target st1))"

definition Propagates :: "nat \<Rightarrow> env \<Rightarrow> val \<Rightarrow> jstate \<Rightarrow> outcome" where
  "Propagates n E target st =
     (let st1 = console_assert (has (KSym Commutes_symbol) target st)
                  ''The `target` object of `Propagates` must also be `Commutes`!'' st
      in if has (KSym Commutes_symbol) target st1
         then bind_res (define_property_mut (KSym Propagates_symbol)
                          (d_configurable (Data F_id)) target st1) (\<lambda>(t2, st2).
                u_wrap_commute (call n E) t2 st2)
         else Done (target, st1))"

section \<open>TracksPropagation\<close>

text \<open>\<^verbatim>\<open>_track_key\<close> and \<^verbatim>\<open>TracksPropagation\<close> of \<^verbatim>\<open>index.js\<close>.\<close>

definition u_track_key_js :: "nat \<Rightarrow> env \<Rightarrow> string \<Rightarrow> val \<Rightarrow> jstate \<Rightarrow> outcome" where
  "u_track_key_js n E key target st =
     (let st1 = console_assert (has (KStr key) target st)
                  (''TracksPropagation: key ('' @ key @ '') does not exist in target!'') st;
          propagate = F_propagate_up_js key target;
          override_propagate = u_override_propagate propagate
      in if has (KStr key) target st1
         then update (call n E) (KStr key) override_propagate target st1
         else Done (target, st1))"

definition TracksPropagation_js :: "nat \<Rightarrow> env \<Rightarrow> string list \<Rightarrow> val \<Rightarrow> jstate \<Rightarrow> outcome" where
  "TracksPropagation_js n E keys target st = fold_res (u_track_key_js n E) keys target st"

text \<open>\<^verbatim>\<open>_add_to_tracking\<close>, \<^verbatim>\<open>_track_key\<close> and \<^verbatim>\<open>TracksPropagation\<close> of \<^verbatim>\<open>index.mjs\<close>.\<close>

definition u_add_to_tracking :: "caller \<Rightarrow> string \<Rightarrow> sym \<Rightarrow> val \<Rightarrow> jstate \<Rightarrow> outcome" where
  "u_add_to_tracking ap key symbol target st =
     update ap (KSym tracking_symbol)
       (push (VObj [(''key'', VStr key), (''symbol'', VSym symbol)])) target st"

definition u_track_key :: "nat \<Rightarrow> env \<Rightarrow> string \<Rightarrow> val \<Rightarrow> jstate \<Rightarrow> outcome" where
  "u_track_key n E key target st =
     (let st1 = console_assert (has (KStr key) target st)
                  (''TracksPropagation: key ('' @ key @ '') does not exist in target!'') st
      in bind_res (get (call n E) (KStr key) target st1) (\<lambda>(tracked_child_v, st2).
           (let symbol = tracked_child (symctr st2) key;
                st3 = st2\<lparr>symctr := Suc (symctr st2)\<rparr>;
                proxy = F_override_propagate_using_parent_context symbol
            in if has (KStr key) target st3
               then bind_res (u_add_to_tracking (call n E) key symbol target st3) (\<lambda>(t4, st4).
                    bind_res (define_property_mut (KSym symbol)
                                (d_non_writable (Data tracked_child_v)) t4 st4) (\<lambda>(t5, st5).
                      define_property_mut (KStr key) (d_enumerable (Getter proxy)) t5 st5))
               else Done (target, st3))))"

definition TracksPropagation :: "nat \<Rightarrow> env \<Rightarrow> string list \<Rightarrow> val \<Rightarrow> jstate \<Rightarrow> outcome" where
  "TracksPropagation n E keys target st =
     bind_res (define_property_mut (KSym tracking_symbol) (d_configurable (Data (VArr []))) target st)
       (\<lambda>(t1, st1). fold_res (u_track_key n E) keys t1 st1)"

section \<open>The objects and functions of the tests\<close>

definition empty_state :: jstate where
  "empty_state = \<lparr>heap = \<lambda>_. Map.empty, nxt = 0, symctr = 0, diag = []\<rparr>"

text \<open>
  The functions of the tests of the source: \<^verbatim>\<open>push(0)\<close> as an updater,
  \<^verbatim>\<open>emit_smoke = result => [ smoke, result.state ]\<close>, and the updater of \<^verbatim>\<open>turn\<close>,
  \<^verbatim>\<open>update(`color`)(current => current === 'green' ? 'brown' : 'green')\<close>. \<open>peek\<close> is a
  read of a value field by a caller's function.
\<close>

definition peek :: "jstate \<Rightarrow> val \<Rightarrow> pkey \<Rightarrow> val" where
  "peek st v k =
     (case v of
        VRef r \<Rightarrow> (case heap st r k of Some (Data x) \<Rightarrow> x | _ \<Rightarrow> VUndef)
      | VObj kvs \<Rightarrow> (case k of KStr s \<Rightarrow> (case map_of kvs s of Some x \<Rightarrow> x | None \<Rightarrow> VUndef)
                             | KSym _ \<Rightarrow> VUndef)
      | _ \<Rightarrow> VUndef)"

definition push_0 :: "jstate \<Rightarrow> val \<Rightarrow> val" where
  "push_0 st v = (case v of VArr xs \<Rightarrow> VArr (xs @ [VNum 0]) | _ \<Rightarrow> VUndef)"

definition smoke :: val where
  "smoke = VObj [(''message'', VStr ''propagate called'')]"

definition emit_smoke :: "jstate \<Rightarrow> val \<Rightarrow> val" where
  "emit_smoke st result = VArr [smoke, peek st result (KStr ''state'')]"

definition turn_color :: "jstate \<Rightarrow> val \<Rightarrow> val" where
  "turn_color st v =
     (case v of
        VObj kvs \<Rightarrow>
          VObj (map (\<lambda>(k, x). if k = ''color''
                                then (k, if x = VStr ''green'' then VStr ''brown'' else VStr ''green'')
                                else (k, x)) kvs)
      | _ \<Rightarrow> VUndef)"

definition test_env :: env where
  "test_env i = (if i = 0 then push_0 else if i = 1 then emit_smoke else turn_color)"

text \<open>
  \<^verbatim>\<open>Leaf\<close> and \<^verbatim>\<open>Tree\<close> of the tests. The method \<^verbatim>\<open>turn\<close> of a leaf is
  \<^verbatim>\<open>this.commute\<close> of the updater above; it is the function \<open>turn\<close> here, which reads the
  leaf from the tree first, as \<^verbatim>\<open>tree.leaf.turn()\<close> does. \<open>Parent1\<close> and \<open>Parent2\<close> are
  the object literals with one and with two leaves, before tracking. \<open>Tree_js\<close> is the
  tree of \<^verbatim>\<open>index.js\<close>, \<open>Tree\<close> the tree of \<^verbatim>\<open>index.mjs\<close> with its two leaves,
  \<open>Tree1\<close> the parent with one leaf under \<^verbatim>\<open>index.mjs\<close> with the keys to track, and
  \<open>Tree2_js\<close> the two leaves under \<^verbatim>\<open>index.js\<close>.
\<close>

definition Leaf_js :: "string \<Rightarrow> jstate \<Rightarrow> outcome" where
  "Leaf_js color st =
     (let (t, st1) = new_object [(KStr ''state'', Data (VObj [(''color'', VStr color)]))] st
      in Commutes_js t st1)"

definition Leaf :: "string \<Rightarrow> jstate \<Rightarrow> outcome" where
  "Leaf color st =
     (let (t, st1) = new_object [(KStr ''state'', Data (VObj [(''color'', VStr color)]))] st
      in Commutes t st1)"

definition Parent1_js :: "nat \<Rightarrow> env \<Rightarrow> jstate \<Rightarrow> outcome" where
  "Parent1_js n E st =
     bind_res (Leaf_js ''green'' st) (\<lambda>(l, st1).
     bind_res (Propagates n E l st1) (\<lambda>(leaf, st2).
       Done (new_object [(KStr ''leaf'', Data leaf), (KStr ''height'', Data (VNum 100))] st2)))"

definition Parent1 :: "nat \<Rightarrow> env \<Rightarrow> jstate \<Rightarrow> outcome" where
  "Parent1 n E st =
     bind_res (Leaf ''green'' st) (\<lambda>(l, st1).
     bind_res (Propagates n E l st1) (\<lambda>(leaf, st2).
       Done (new_object [(KStr ''leaf'', Data leaf), (KStr ''height'', Data (VNum 100))] st2)))"

definition Parent2_js :: "nat \<Rightarrow> env \<Rightarrow> jstate \<Rightarrow> outcome" where
  "Parent2_js n E st =
     bind_res (Leaf_js ''green'' st) (\<lambda>(l, st1).
     bind_res (Propagates n E l st1) (\<lambda>(leaf, st2).
     bind_res (Leaf_js ''green'' st2) (\<lambda>(l2, st3).
     bind_res (Propagates n E l2 st3) (\<lambda>(leaf2, st4).
       Done (new_object [(KStr ''leaf'', Data leaf), (KStr ''leaf2'', Data leaf2),
                         (KStr ''height'', Data (VNum 100))] st4)))))"

definition Parent2 :: "nat \<Rightarrow> env \<Rightarrow> jstate \<Rightarrow> outcome" where
  "Parent2 n E st =
     bind_res (Leaf ''green'' st) (\<lambda>(l, st1).
     bind_res (Propagates n E l st1) (\<lambda>(leaf, st2).
     bind_res (Leaf ''green'' st2) (\<lambda>(l2, st3).
     bind_res (Propagates n E l2 st3) (\<lambda>(leaf2, st4).
       Done (new_object [(KStr ''leaf'', Data leaf), (KStr ''leaf2'', Data leaf2),
                         (KStr ''height'', Data (VNum 100))] st4)))))"

definition Tree_js :: "nat \<Rightarrow> env \<Rightarrow> jstate \<Rightarrow> outcome" where
  "Tree_js n E st =
     bind_res (Parent1_js n E st) (\<lambda>(t, st1). TracksPropagation_js n E [''leaf''] t st1)"

definition Tree1 :: "nat \<Rightarrow> env \<Rightarrow> string list \<Rightarrow> jstate \<Rightarrow> outcome" where
  "Tree1 n E keys st =
     bind_res (Parent1 n E st) (\<lambda>(t, st1). TracksPropagation n E keys t st1)"

definition Tree :: "nat \<Rightarrow> env \<Rightarrow> jstate \<Rightarrow> outcome" where
  "Tree n E st =
     bind_res (Parent2 n E st) (\<lambda>(t, st1). TracksPropagation n E [''leaf'', ''leaf2''] t st1)"

definition Tree2_js :: "nat \<Rightarrow> env \<Rightarrow> jstate \<Rightarrow> outcome" where
  "Tree2_js n E st =
     bind_res (Parent2_js n E st) (\<lambda>(t, st1). TracksPropagation_js n E [''leaf'', ''leaf2''] t st1)"

definition turn :: "nat \<Rightarrow> env \<Rightarrow> string \<Rightarrow> val \<Rightarrow> jstate \<Rightarrow> outcome" where
  "turn n E key tree st =
     bind_res (get (call n E) (KStr key) tree st) (\<lambda>(leaf, st1).
       invoke n E (KStr ''commute'') leaf (F_user 2) st1)"

text \<open>
  \<^verbatim>\<open>tree[key].commute(updater)\<close> for an updater of the caller, as in
  \<^verbatim>\<open>tracked.count.commute(v => v + 1)\<close>, and a sequence of such commits, each on the
  parent that the one before returned, as in \<^verbatim>\<open>Tree().leaf.turn().leaf2.turn()\<close>.
\<close>

definition commit_key :: "nat \<Rightarrow> env \<Rightarrow> string \<Rightarrow> nat \<Rightarrow> val \<Rightarrow> jstate \<Rightarrow> outcome" where
  "commit_key n E key i tree st =
     bind_res (get (call n E) (KStr key) tree st) (\<lambda>(child, st1).
       invoke n E (KStr ''commute'') child (F_user i) st1)"

definition commits :: "nat \<Rightarrow> env \<Rightarrow> (string \<times> nat) list \<Rightarrow> val \<Rightarrow> jstate \<Rightarrow> outcome" where
  "commits n E ks tree st = fold_res (\<lambda>(key, i). commit_key n E key i) ks tree st"

text \<open>\<^verbatim>\<open>tree[key].state.color\<close> and \<^verbatim>\<open>tree.height\<close>.\<close>

definition color_of :: "nat \<Rightarrow> env \<Rightarrow> string \<Rightarrow> val \<Rightarrow> jstate \<Rightarrow> outcome" where
  "color_of n E key tree st =
     bind_res (get (call n E) (KStr key) tree st) (\<lambda>(leaf, st1).
     bind_res (get (call n E) (KStr ''state'') leaf st1) (\<lambda>(s, st2).
       get (call n E) (KStr ''color'') s st2))"

definition height_of :: "nat \<Rightarrow> env \<Rightarrow> val \<Rightarrow> jstate \<Rightarrow> outcome" where
  "height_of n E tree st = get (call n E) (KStr ''height'') tree st"

text \<open>
  The scenario of one tracked leaf: \<^verbatim>\<open>turned = mk().leaf.turn()\<close> and
  \<^verbatim>\<open>turned_twice = turned.leaf.turn()\<close>. What is observed after the first turn: whether
  \<open>turned\<close> is the tree itself, the height and the leaf colour of \<open>turned\<close>, and the height
  and the leaf colour that the tree has then. After the second turn: whether
  \<open>turned_twice\<close> is \<open>turned\<close> or the tree, and height and leaf colour of \<open>turned_twice\<close>,
  of \<open>turned\<close> and of the tree.
\<close>

definition observe :: "nat \<Rightarrow> env \<Rightarrow> val \<Rightarrow> jstate \<Rightarrow> ((val \<times> val) \<times> jstate) res" where
  "observe n E tree st =
     bind_res (height_of n E tree st) (\<lambda>(h, st1).
     bind_res (color_of n E ''leaf'' tree st1) (\<lambda>(c, st2). Done ((h, c), st2)))"

definition turned_once :: "nat \<Rightarrow> env \<Rightarrow> outcome \<Rightarrow> (bool \<times> (val \<times> val) \<times> (val \<times> val)) res" where
  "turned_once n E mk =
     bind_res mk (\<lambda>(tree, st).
     bind_res (turn n E ''leaf'' tree st) (\<lambda>(turned, st1).
     bind_res (observe n E turned st1) (\<lambda>(o1, st2).
     bind_res (observe n E tree st2) (\<lambda>(o0, st3).
       Done (turned = tree, o1, o0)))))"

definition turned_twice ::
  "nat \<Rightarrow> env \<Rightarrow> outcome \<Rightarrow> (bool \<times> bool \<times> (val \<times> val) \<times> (val \<times> val) \<times> (val \<times> val)) res" where
  "turned_twice n E mk =
     bind_res mk (\<lambda>(tree, st).
     bind_res (turn n E ''leaf'' tree st) (\<lambda>(turned, st1).
     bind_res (turn n E ''leaf'' turned st1) (\<lambda>(twice, st2).
     bind_res (observe n E twice st2) (\<lambda>(o2, st3).
     bind_res (observe n E turned st3) (\<lambda>(o1, st4).
     bind_res (observe n E tree st4) (\<lambda>(o0, st5).
       Done (twice = turned, twice = tree, o2, o1, o0)))))))"

text \<open>
  The keys of the tracking ledger of a parent, as the test reads them:
  \<^verbatim>\<open>map(get(`key`))(tree[TracksPropagation.tracking_symbol])\<close>.
\<close>

definition tracked :: "jstate \<Rightarrow> val \<Rightarrow> val list" where
  "tracked st tree = (case peek st tree (KSym tracking_symbol) of VArr es \<Rightarrow> es | _ \<Rightarrow> [])"

definition tracked_keys :: "jstate \<Rightarrow> val \<Rightarrow> val list" where
  "tracked_keys st tree = map (\<lambda>e. peek st e (KStr ''key'')) (tracked st tree)"

text \<open>
  \<^verbatim>\<open>mk().leaf.turn().leaf2.turn()\<close>, and the same followed by \<^verbatim>\<open>.leaf.turn()\<close>, observed
  as the colours of \<^verbatim>\<open>leaf\<close> and \<^verbatim>\<open>leaf2\<close> in the result; the keys of the ledger of a
  tree; and whether tracking returns the parent it was given.
\<close>

definition colors :: "nat \<Rightarrow> env \<Rightarrow> val \<Rightarrow> jstate \<Rightarrow> (val \<times> val) res" where
  "colors n E tree st =
     bind_res (color_of n E ''leaf'' tree st) (\<lambda>(c1, st1).
     bind_res (color_of n E ''leaf2'' tree st1) (\<lambda>(c2, st2). Done (c1, c2)))"

definition two_turns :: "nat \<Rightarrow> env \<Rightarrow> outcome \<Rightarrow> (val \<times> val) res" where
  "two_turns n E mk =
     bind_res mk (\<lambda>(tree, st).
     bind_res (turn n E ''leaf'' tree st) (\<lambda>(t1, st1).
     bind_res (turn n E ''leaf2'' t1 st1) (\<lambda>(t2, st2). colors n E t2 st2)))"

definition three_turns :: "nat \<Rightarrow> env \<Rightarrow> outcome \<Rightarrow> (val \<times> val) res" where
  "three_turns n E mk =
     bind_res mk (\<lambda>(tree, st).
     bind_res (turn n E ''leaf'' tree st) (\<lambda>(t1, st1).
     bind_res (turn n E ''leaf2'' t1 st1) (\<lambda>(t2, st2).
     bind_res (turn n E ''leaf'' t2 st2) (\<lambda>(t3, st3). colors n E t3 st3))))"

definition ledger_keys_of :: "outcome \<Rightarrow> val list res" where
  "ledger_keys_of mk = bind_res mk (\<lambda>(tree, st). Done (tracked_keys st tree))"

definition same_reference :: "outcome \<Rightarrow> (val \<Rightarrow> jstate \<Rightarrow> outcome) \<Rightarrow> bool res" where
  "same_reference mk track =
     bind_res mk (\<lambda>(parent, st). bind_res (track parent st) (\<lambda>(tree, st1). Done (tree = parent)))"

section \<open>Predicates of the proofs\<close>

definition ledger_entry :: "string \<Rightarrow> nat \<Rightarrow> val" where
  "ledger_entry k j = VObj [(''key'', VStr k), (''symbol'', VSym (tracked_child j k))]"

definition track_msg :: "string \<Rightarrow> string" where
  "track_msg key = ''TracksPropagation: key ('' @ key @ '') does not exist in target!''"

text \<open>
  What a call can change in the store: it creates objects, and it replaces the
  propagate field of objects that have one; every other field of every object that
  existed stays as it was.
\<close>

definition frame :: "jstate \<Rightarrow> jstate \<Rightarrow> bool" where
  "frame st st' \<longleftrightarrow>
       nxt st \<le> nxt st'
     \<and> (\<forall>r k. r < nxt st \<longrightarrow> k \<noteq> KSym Propagates_symbol \<longrightarrow> heap st' r k = heap st r k)
     \<and> (\<forall>r. r < nxt st \<longrightarrow>
           (heap st' r (KSym Propagates_symbol) = None \<longleftrightarrow> heap st r (KSym Propagates_symbol) = None))"

text \<open>
  The keys that \<^verbatim>\<open>_track_key\<close> of \<^verbatim>\<open>index.mjs\<close> tracks without throwing, when a
  getter can be called: a key that is absent, a value field that can be redefined, or a
  key that was tracked before (its getter reads a value under a symbol made earlier).
  For \<^verbatim>\<open>index.js\<close>: a key that is absent or a value field that can be redefined.
\<close>

definition trackable :: "jstate \<Rightarrow> ref \<Rightarrow> string \<Rightarrow> bool" where
  "trackable st p k =
     (case heap st p (KStr k) of
        None \<Rightarrow> True
      | Some (Data c) \<Rightarrow> \<not> fixed st p (KStr k)
      | Some (Getter g) \<Rightarrow>
          (case g of
             F_override_propagate_using_parent_context s \<Rightarrow>
               (case s of tracked_child j k' \<Rightarrow> j < symctr st | _ \<Rightarrow> False)
               \<and> (case heap st p (KSym s) of Some (Data c) \<Rightarrow> True | _ \<Rightarrow> False)
           | _ \<Rightarrow> False))"

definition plain_key :: "jstate \<Rightarrow> ref \<Rightarrow> string \<Rightarrow> bool" where
  "plain_key st p k =
     (case heap st p (KStr k) of
        None \<Rightarrow> True
      | Some (Data c) \<Rightarrow> \<not> fixed st p (KStr k)
      | Some (Getter g) \<Rightarrow> False)"

text \<open>
  What the fold of \<^verbatim>\<open>_track_key\<close> of \<^verbatim>\<open>index.mjs\<close> has done after the keys \<open>ks\<close>, when it
  started on the parent \<open>r\<close> in the state \<open>st0\<close> (the ledger just set to the empty array)
  and has reached the parent \<open>p\<close> in the state \<open>st\<close>: \<open>js\<close> are the keys tracked, in order,
  each with the number of the symbol made for it. For an entry of the ledger, with the
  key \<open>k\<close> and the symbol number \<open>j\<close>: the key holds the getter for the symbol made when
  the key was last tracked, and that symbol and the symbol of the entry hold the same
  value, which is the value of the field that the parent had at the start.
\<close>

definition entry_ok :: "jstate \<Rightarrow> ref \<Rightarrow> ref \<Rightarrow> jstate \<Rightarrow> (string \<times> nat) list \<Rightarrow> string \<Rightarrow> nat \<Rightarrow> bool" where
  "entry_ok st0 r p st js k j \<longleftrightarrow>
     (\<exists>j' c.
         j < symctr st \<and> j' < symctr st \<and> map_of (rev js) k = Some j'
       \<and> heap st0 r (KStr k) \<noteq> None
       \<and> heap st p (KStr k) = Some (Getter (F_override_propagate_using_parent_context (tracked_child j' k)))
       \<and> heap st p (KSym (tracked_child j' k)) = Some (Data c)
       \<and> heap st p (KSym (tracked_child j k)) = Some (Data c)
       \<and> (\<forall>c0. heap st0 r (KStr k) = Some (Data c0) \<longrightarrow> c = c0))"

definition track_inv :: "jstate \<Rightarrow> ref \<Rightarrow> string list \<Rightarrow> ref \<Rightarrow> jstate \<Rightarrow> (string \<times> nat) list \<Rightarrow> bool" where
  "track_inv st0 r ks p st js \<longleftrightarrow>
       p < nxt st \<and> nxt st0 \<le> nxt st \<and> symctr st0 \<le> symctr st
     \<and> heap st p (KSym tracking_symbol) = Some (Data (VArr (map (\<lambda>(k, j). ledger_entry k j) js)))
     \<and> map fst js = filter (\<lambda>k. heap st0 r (KStr k) \<noteq> None) ks
     \<and> (\<forall>k. k \<notin> fst ` set js \<longrightarrow> heap st p (KStr k) = heap st0 r (KStr k))
     \<and> (\<forall>(k, j)\<in>set js. entry_ok st0 r p st js k j)
     \<and> (\<forall>q k. q < nxt st0 \<longrightarrow> k \<noteq> KSym Propagates_symbol \<longrightarrow> heap st q k = heap st0 q k)
     \<and> (\<forall>q. q < nxt st0 \<longrightarrow>
           (heap st q (KSym Propagates_symbol) = None \<longleftrightarrow> heap st0 q (KSym Propagates_symbol) = None))
     \<and> (if js = [] then p = r \<and> nxt st = nxt st0 else nxt st0 \<le> p)"

text \<open>The same for \<^verbatim>\<open>_track_key\<close> of \<^verbatim>\<open>index.js\<close>, which keeps no ledger.\<close>

definition track_inv_js :: "jstate \<Rightarrow> ref \<Rightarrow> string list \<Rightarrow> ref \<Rightarrow> jstate \<Rightarrow> bool" where
  "track_inv_js st0 r ks p st \<longleftrightarrow>
       p < nxt st \<and> nxt st0 \<le> nxt st
     \<and> (\<forall>k. heap st p (KStr k) = None \<longleftrightarrow> heap st0 r (KStr k) = None)
     \<and> (\<forall>s. s \<noteq> Propagates_symbol \<longrightarrow> heap st p (KSym s) = heap st0 r (KSym s))
     \<and> (if filter (\<lambda>k. heap st0 r (KStr k) \<noteq> None) ks = []
         then p = r \<and> nxt st = nxt st0 else nxt st0 \<le> p)"

text \<open>
  A node that commutes and propagates, with the state \<open>s\<close>: what \<^verbatim>\<open>Commutes\<close> and
  \<^verbatim>\<open>Propagates\<close> leave on a node, whatever its propagate field holds by now. A parent
  \<open>p\<close> that tracks the key \<open>k\<close> through its symbol number \<open>j\<close> with the child \<open>c\<close>: what
  \<^verbatim>\<open>_track_key\<close> of \<^verbatim>\<open>index.mjs\<close> leaves on a parent.
\<close>

definition commuting :: "jstate \<Rightarrow> ref \<Rightarrow> val \<Rightarrow> bool" where
  "commuting st c s \<longleftrightarrow>
       c < nxt st
     \<and> heap st c (KStr ''state'') = Some (Data s)
     \<and> heap st c (KStr ''commute'') = Some (Data F_proxy_commute)
     \<and> heap st c (KSym Commutes_symbol) = Some (Data (F_propagating_commute F_commute))
     \<and> heap st c (KSym Propagates_symbol) \<noteq> None"

definition tracks :: "jstate \<Rightarrow> ref \<Rightarrow> string \<Rightarrow> nat \<Rightarrow> ref \<Rightarrow> bool" where
  "tracks st p k j c \<longleftrightarrow>
       p < nxt st
     \<and> heap st p (KStr k)
         = Some (Getter (F_override_propagate_using_parent_context (tracked_child j k)))
     \<and> heap st p (KSym (tracked_child j k)) = Some (Data (VRef c))"

text \<open>
  The state in which the fold of \<^verbatim>\<open>TracksPropagation\<close> of \<^verbatim>\<open>index.mjs\<close> starts: the
  ledger of the parent given has been set to the empty array, in place.
\<close>

definition ledger_reset :: "ref \<Rightarrow> jstate \<Rightarrow> jstate" where
  "ledger_reset r st
     = st\<lparr>heap := (heap st)(r := (heap st r)(KSym tracking_symbol \<mapsto> Data (VArr [])))\<rparr>"

section \<open>Evaluation lemmas\<close>

lemma bind_res_Done [simp]: "bind_res (Done x) f = f x"
  by (simp add: bind_res_def)

lemma bind_res_TypeError [simp]: "bind_res TypeError f = TypeError"
  by (simp add: bind_res_def)

lemma bind_res_Timeout [simp]: "bind_res Timeout f = Timeout"
  by (simp add: bind_res_def)

lemma bind_res_eq_Done: "bind_res m f = Done y \<longleftrightarrow> (\<exists>x. m = Done x \<and> f x = Done y)"
  by (cases m) auto

lemma get_Data: "heap st r k = Some (Data x) \<Longrightarrow> get ap k (VRef r) st = Done (x, st)"
  by (simp add: get_def)

lemma get_absent: "heap st r k = None \<Longrightarrow> get ap k (VRef r) st = Done (VUndef, st)"
  by (simp add: get_def)

lemma bind_res_body_id: "bind_res X (\<lambda>(x, y). body ap E F_id this x y) = X"
  by (cases X) (auto simp: bind_res_def)

lemma call_Suc_eta: "call (Suc k) E f this = body (call k E) E f this"
  by (rule ext)+ simp

lemmas attach_defs = Commutes_js_def Commutes_def Propagates_def u_wrap_commute_def
  u_override_commute_def u_override_propagate_def override_internal_def
  console_assert_def has_def define_property_mut_def fixed_def Let_def

lemmas run_defs = attach_defs new_object_def empty_state_def get_def update_def invoke_def
  u_commute_def u_proxy_commute_def propagating_commute_def propagate_up_def propagate_up_js_def
  override_propagate_using_parent_context_def u_track_key_js_def TracksPropagation_js_def
  u_add_to_tracking_def u_track_key_def TracksPropagation_def push_def

lemmas test_defs = Leaf_js_def Leaf_def Parent1_js_def Parent1_def Parent2_js_def Parent2_def
  Tree_js_def Tree1_def Tree_def Tree2_js_def turn_def two_turns_def three_turns_def colors_def
  ledger_keys_of_def same_reference_def observe_def turned_once_def turned_twice_def
  color_of_def height_of_def turn_color_def push_0_def emit_smoke_def peek_def test_env_def
  tracked_def tracked_keys_def

section \<open>What a call leaves unchanged\<close>

lemma frame_refl [simp]: "frame st st"
  by (simp add: frame_def)

lemma frame_field:
  "frame st st' \<Longrightarrow> r < nxt st \<Longrightarrow> k \<noteq> KSym Propagates_symbol \<Longrightarrow> heap st' r k = heap st r k"
  by (simp add: frame_def)

lemma frame_propagate:
  "frame st st' \<Longrightarrow> r < nxt st
     \<Longrightarrow> (heap st' r (KSym Propagates_symbol) = None) = (heap st r (KSym Propagates_symbol) = None)"
  by (simp add: frame_def)

lemma frame_nxt: "frame st st' \<Longrightarrow> nxt st \<le> nxt st'"
  by (simp add: frame_def)

lemma frame_trans:
  assumes "frame st st1" and "frame st1 st2"
  shows "frame st st2"
proof -
  have n: "nxt st \<le> nxt st1" "nxt st1 \<le> nxt st2"
    using assms by (auto dest: frame_nxt)
  show ?thesis
    unfolding frame_def
  proof (intro conjI allI impI)
    show "nxt st \<le> nxt st2" using n by simp
  next
    fix r k assume r: "r < nxt st" and k: "k \<noteq> KSym Propagates_symbol"
    then have "r < nxt st1" using n by simp
    then have "heap st2 r k = heap st1 r k" using assms(2) k by (rule_tac frame_field)
    also have "heap st1 r k = heap st r k" using assms(1) r k by (rule frame_field)
    finally show "heap st2 r k = heap st r k" .
  next
    fix r assume r: "r < nxt st"
    then have "r < nxt st1" using n by simp
    then have "(heap st2 r (KSym Propagates_symbol) = None) = (heap st1 r (KSym Propagates_symbol) = None)"
      using assms(2) by (rule_tac frame_propagate)
    also have "\<dots> = (heap st r (KSym Propagates_symbol) = None)"
      using assms(1) r by (rule frame_propagate)
    finally show "(heap st2 r (KSym Propagates_symbol) = None) = (heap st r (KSym Propagates_symbol) = None)" .
  qed
qed

lemma frame_diag [simp]: "frame st (st\<lparr>diag := d\<rparr>)"
  by (simp add: frame_def)

lemma frame_alloc: "frame st (st\<lparr>heap := (heap st)(nxt st := x), nxt := Suc (nxt st)\<rparr>)"
  by (simp add: frame_def)

lemma override_internal_Done:
  "\<exists>st'. override_internal symbol f c st = Done (c, st') \<and> nxt st' = nxt st
       \<and> symctr st' = symctr st
       \<and> (\<forall>r k. k \<noteq> KSym symbol \<longrightarrow> heap st' r k = heap st r k)
       \<and> (\<forall>r. heap st' r (KSym symbol) = None \<longleftrightarrow> heap st r (KSym symbol) = None)"
  by (cases c) (auto simp: override_internal_def console_assert_def has_def
      define_property_mut_def fixed_def Let_def)

lemma override_propagate_frame:
  "\<exists>st'. u_override_propagate f c st = Done (c, st') \<and> frame st st' \<and> symctr st' = symctr st
        \<and> nxt st' = nxt st"
  using override_internal_Done[of Propagates_symbol f c st]
  by (auto simp: u_override_propagate_def frame_def)

lemma get_frame:
  assumes ap: "\<And>f this a st v st'. ap f this a st = Done (v, st')
                 \<Longrightarrow> frame st st' \<and> symctr st' = symctr st"
    and "get ap k x st = Done (v, st')"
  shows "frame st st' \<and> symctr st' = symctr st"
  using assms(2) ap
  by (auto simp: get_def split: val.splits option.splits slot.splits pkey.splits)

lemma update_frame:
  assumes ap: "\<And>f this a st v st'. ap f this a st = Done (v, st')
                 \<Longrightarrow> frame st st' \<and> symctr st' = symctr st"
    and f: "\<And>old s1 new s2. f old s1 = Done (new, s2) \<Longrightarrow> frame s1 s2 \<and> symctr s2 = symctr s1"
    and "update ap k f x st = Done (v, st')"
  shows "frame st st' \<and> symctr st' = symctr st"
proof -
  from assms(3) obtain r old st1 new st2 where x: "x = VRef r"
    and g: "get ap k x st = Done (old, st1)"
    and fo: "f old st1 = Done (new, st2)"
    and st': "st' = st2\<lparr>heap := (heap st2)(nxt st2 := (heap st2 r)(k \<mapsto> Data new)),
                        nxt := Suc (nxt st2)\<rparr>"
    by (auto simp: update_def bind_res_eq_Done split: val.splits)
  have 1: "frame st st1 \<and> symctr st1 = symctr st"
    by (rule get_frame[where ap = ap and k = k and x = x and v = old])
      (rule ap, assumption, rule g)
  have 2: "frame st1 st2 \<and> symctr st2 = symctr st1" using f[OF fo] .
  have 3: "frame st2 st'" unfolding st' by (rule frame_alloc)
  from 1 2 3 show ?thesis
    by (auto intro: frame_trans simp: st')
qed

lemma call_frame:
  "call n E f this a st = Done (v, st') \<Longrightarrow> frame st st' \<and> symctr st' = symctr st"
proof (induction n arbitrary: f this a st v st')
  case 0
  then show ?case by simp
next
  case (Suc n)
  have ap: "\<And>f this a st v st'. call n E f this a st = Done (v, st')
              \<Longrightarrow> frame st st' \<and> symctr st' = symctr st"
    by (rule Suc.IH)
  have gf: "frame st st' \<and> symctr st' = symctr st"
    if "get (call n E) k x st = Done (v, st')" for k x st v st'
    by (rule get_frame[where ap = "call n E" and k = k and x = x and v = v])
      (rule ap, assumption, rule that)
  from Suc.prems have b: "body (call n E) E f this a st = Done (v, st')" by simp
  show ?case
  proof (cases f)
    case F_commute
    with b have u: "update (call n E) (KStr ''state'') (call n E a VUndef) this st = Done (v, st')"
      by (simp add: u_commute_def)
    show ?thesis
      by (rule update_frame[where ap = "call n E" and f = "call n E a VUndef", OF _ _ u])
        (rule ap, assumption)+
  next
    case F_proxy_commute
    with b obtain m st1 where g: "get (call n E) (KSym Commutes_symbol) this st = Done (m, st1)"
      and c: "call n E m this a st1 = Done (v, st')"
      by (auto simp: u_proxy_commute_def bind_res_eq_Done)
    from gf[OF g] ap[OF c] show ?thesis by (auto intro: frame_trans)
  next
    case (F_propagating_commute commute)
    with b obtain pr st1 res st2 where
      g: "get (call n E) (KSym Propagates_symbol) this st = Done (pr, st1)"
      and c: "call n E commute this a st1 = Done (res, st2)"
      and p: "call n E pr this res st2 = Done (v, st')"
      by (auto simp: propagating_commute_def bind_res_eq_Done)
    from gf[OF g] ap[OF c] ap[OF p] show ?thesis by (auto intro: frame_trans)
  next
    case F_id
    with b show ?thesis by simp
  next
    case (F_propagate_up symbol parent)
    with b have u: "update (call n E) (KSym symbol) (\<lambda>_ st'. Done (a, st')) parent st = Done (v, st')"
      by (simp add: propagate_up_def)
    show ?thesis
      by (rule update_frame[where ap = "call n E" and f = "\<lambda>_ st'. Done (a, st')", OF _ _ u])
        (rule ap, assumption, simp)
  next
    case (F_propagate_up_js key target)
    with b have u: "update (call n E) (KStr key) (\<lambda>_ st'. Done (a, st')) target st = Done (v, st')"
      by (simp add: propagate_up_js_def)
    show ?thesis
      by (rule update_frame[where ap = "call n E" and f = "\<lambda>_ st'. Done (a, st')", OF _ _ u])
        (rule ap, assumption, simp)
  next
    case (F_override_propagate_using_parent_context symbol)
    with b obtain child st1 where
      g: "get (call n E) (KSym symbol) this st = Done (child, st1)"
      and o: "u_override_propagate (F_propagate_up symbol this) child st1 = Done (v, st')"
      by (auto simp: override_propagate_using_parent_context_def bind_res_eq_Done)
    from override_propagate_frame[of "F_propagate_up symbol this" child st1] o
    have "frame st1 st' \<and> symctr st' = symctr st1" by auto
    with gf[OF g] show ?thesis by (auto intro: frame_trans)
  next
    case (F_user i)
    with b show ?thesis by auto
  qed (use b in auto)
qed

lemma get_call_frame:
  assumes "get (call n E) k x st = Done (v, st')"
  shows "frame st st' \<and> symctr st' = symctr st"
  by (rule get_frame[where ap = "call n E" and k = k and x = x and v = v])
    (rule call_frame, assumption, rule assms)

text \<open>Reading a key that a getter of \<^verbatim>\<open>_track_key\<close> serves.\<close>

lemma getter_read:
  assumes "heap sq q (KStr k) = Some (Getter (F_override_propagate_using_parent_context s))"
    and "heap sq q (KSym s) = Some (Data c)"
  shows "get (call (Suc m) E) (KStr k) (VRef q) sq
           = u_override_propagate (F_propagate_up s (VRef q)) c sq"
  using assms by (simp add: get_def override_propagate_using_parent_context_def)

lemma getter_read_Done:
  assumes "heap sq q (KStr k) = Some (Getter (F_override_propagate_using_parent_context s))"
    and "heap sq q (KSym s) = Some (Data c)"
    and "get (call n E) (KStr k) (VRef q) sq = Done (x, st')"
  shows "x = c \<and> 0 < n"
proof (cases n)
  case 0
  with assms show ?thesis by (simp add: get_def)
next
  case (Suc m)
  with assms(3) getter_read[OF assms(1,2), of m E]
    override_propagate_frame[of "F_propagate_up s (VRef q)" c sq]
  show ?thesis by auto
qed

lemma override_in_place:
  assumes "has (KSym symbol) (VRef rc) sq"
  shows "override_internal symbol f (VRef rc) sq
           = Done (VRef rc, sq\<lparr>heap := (heap sq)(rc := (heap sq rc)(KSym symbol \<mapsto> Data f))\<rparr>)"
  using assms
  by (simp add: override_internal_def console_assert_def has_def define_property_mut_def fixed_def)

section \<open>Tracking one key\<close>

lemma u_track_key_js_absent:
  "heap st r (KStr k) = None
     \<Longrightarrow> u_track_key_js n E k (VRef r) st = Done (VRef r, st\<lparr>diag := diag st @ [track_msg k]\<rparr>)"
  by (simp add: u_track_key_js_def console_assert_def has_def track_msg_def Let_def)

lemma u_track_key_absent:
  "heap st r (KStr k) = None
     \<Longrightarrow> u_track_key n E k (VRef r) st
           = Done (VRef r, st\<lparr>diag := diag st @ [track_msg k], symctr := Suc (symctr st)\<rparr>)"
  by (simp add: u_track_key_def console_assert_def has_def track_msg_def get_def Let_def)

text \<open>
  A key that the parent has, in \<^verbatim>\<open>index.mjs\<close>: when \<^verbatim>\<open>_track_key\<close> returns, it has read
  the key, and returns a copy of the parent with the entry appended to the ledger, the
  value read under the new symbol and the getter at the key.
\<close>

lemma u_track_key_present:
  assumes p: "p < nxt st"
    and k: "heap st p (KStr k) \<noteq> None"
    and l: "heap st p (KSym tracking_symbol) = Some (Data (VArr xs))"
    and d: "u_track_key n E k (VRef p) st = Done (v, st')"
  shows "\<exists>c st2. get (call n E) (KStr k) (VRef p) st = Done (c, st2)
           \<and> frame st st2 \<and> symctr st2 = symctr st
           \<and> v = VRef (nxt st2)
           \<and> st' = st2\<lparr>heap := (heap st2)(nxt st2 := (heap st2 p)
                        (KSym tracking_symbol \<mapsto> Data (VArr (xs @ [ledger_entry k (symctr st)])),
                         KSym (tracked_child (symctr st) k) \<mapsto> Data c,
                         KStr k \<mapsto> Getter (F_override_propagate_using_parent_context
                                              (tracked_child (symctr st) k)))),
                   nxt := Suc (nxt st2), symctr := Suc (symctr st)\<rparr>"
proof -
  have h: "has (KStr k) (VRef p) st" using k by (simp add: has_def)
  from d h obtain c st2 where g: "get (call n E) (KStr k) (VRef p) st = Done (c, st2)"
    by (auto simp: u_track_key_def console_assert_def bind_res_eq_Done Let_def)
  from get_call_frame[OF g] have fr: "frame st st2" and sc: "symctr st2 = symctr st" by auto
  have k2: "heap st2 p (KStr k) = heap st p (KStr k)"
    using fr p by (rule frame_field) simp
  have l2: "heap st2 p (KSym tracking_symbol) = Some (Data (VArr xs))"
    using frame_field[OF fr p, of "KSym tracking_symbol"] l by simp
  from d h g k k2 l2 sc
  have "v = VRef (nxt st2)
      \<and> st' = st2\<lparr>heap := (heap st2)(nxt st2 := (heap st2 p)
                        (KSym tracking_symbol \<mapsto> Data (VArr (xs @ [ledger_entry k (symctr st)])),
                         KSym (tracked_child (symctr st) k) \<mapsto> Data c,
                         KStr k \<mapsto> Getter (F_override_propagate_using_parent_context
                                              (tracked_child (symctr st) k)))),
                   nxt := Suc (nxt st2), symctr := Suc (symctr st)\<rparr>"
    by (auto simp: u_track_key_def console_assert_def has_def Let_def u_add_to_tracking_def
        update_def get_def push_def define_property_mut_def fixed_def ledger_entry_def
        split: if_splits)
  with g fr sc show ?thesis by blast
qed

text \<open>The same in \<^verbatim>\<open>index.js\<close>: a copy of the parent with the value read at the key.\<close>

lemma u_track_key_js_present:
  assumes p: "p < nxt st"
    and k: "heap st p (KStr k) \<noteq> None"
    and d: "u_track_key_js n E k (VRef p) st = Done (v, st')"
  shows "\<exists>c st2. frame st st2
           \<and> v = VRef (nxt st2)
           \<and> st' = st2\<lparr>heap := (heap st2)(nxt st2 := (heap st2 p)(KStr k \<mapsto> Data c)),
                       nxt := Suc (nxt st2)\<rparr>"
proof -
  have h: "has (KStr k) (VRef p) st" using k by (simp add: has_def)
  from d h obtain c st1 where g: "get (call n E) (KStr k) (VRef p) st = Done (c, st1)"
    by (auto simp: u_track_key_js_def console_assert_def update_def bind_res_eq_Done Let_def)
  from get_call_frame[OF g] have fr: "frame st st1" by auto
  obtain st2 where o: "u_override_propagate (F_propagate_up_js k (VRef p)) c st1 = Done (c, st2)"
    and fr2: "frame st1 st2"
    using override_propagate_frame[of "F_propagate_up_js k (VRef p)" c st1] by blast
  from d h g o
  have "v = VRef (nxt st2)
      \<and> st' = st2\<lparr>heap := (heap st2)(nxt st2 := (heap st2 p)(KStr k \<mapsto> Data c)),
                       nxt := Suc (nxt st2)\<rparr>"
    by (simp add: u_track_key_js_def console_assert_def update_def Let_def)
  with frame_trans[OF fr fr2] show ?thesis by blast
qed
section \<open>The fold of index.mjs\<close>

lemma track_inv_absent:
  assumes I: "track_inv st0 r ks p st js"
    and a: "heap st p (KStr k) = None"
  shows "track_inv st0 r (ks @ [k]) p (st\<lparr>diag := d, symctr := Suc (symctr st)\<rparr>) js"
proof -
  have k0: "heap st0 r (KStr k) = None"
  proof (cases "k \<in> fst ` set js")
    case False
    with I a show ?thesis by (simp add: track_inv_def)
  next
    case True
    then obtain j where "(k, j) \<in> set js" by auto
    with I have "entry_ok st0 r p st js k j" by (auto simp: track_inv_def)
    with a show ?thesis by (auto simp: entry_ok_def)
  qed
  have e: "entry_ok st0 r p (st\<lparr>diag := d, symctr := Suc (symctr st)\<rparr>) js k' j"
    if "entry_ok st0 r p st js k' j" for k' j
  proof -
    from that obtain j' c where "j < symctr st" "j' < symctr st" "map_of (rev js) k' = Some j'"
      "heap st0 r (KStr k') \<noteq> None"
      "heap st p (KStr k')
         = Some (Getter (F_override_propagate_using_parent_context (tracked_child j' k')))"
      "heap st p (KSym (tracked_child j' k')) = Some (Data c)"
      "heap st p (KSym (tracked_child j k')) = Some (Data c)"
      "\<forall>c0. heap st0 r (KStr k') = Some (Data c0) \<longrightarrow> c = c0"
      unfolding entry_ok_def by blast
    then show ?thesis
      unfolding entry_ok_def
      by (intro exI[of _ j'] exI[of _ c]) simp
  qed
  from I have "\<forall>(k', j)\<in>set js. entry_ok st0 r p st js k' j"
    by (simp add: track_inv_def)
  then have es: "\<forall>(k', j)\<in>set js. entry_ok st0 r p (st\<lparr>diag := d, symctr := Suc (symctr st)\<rparr>) js k' j"
    using e by blast
  from I k0 have rest: "p < nxt st" "nxt st0 \<le> nxt st" "symctr st0 \<le> symctr st"
    "heap st p (KSym tracking_symbol) = Some (Data (VArr (map (\<lambda>(k, j). ledger_entry k j) js)))"
    "map fst js = filter (\<lambda>k. heap st0 r (KStr k) \<noteq> None) (ks @ [k])"
    "\<forall>k. k \<notin> fst ` set js \<longrightarrow> heap st p (KStr k) = heap st0 r (KStr k)"
    "\<forall>q k. q < nxt st0 \<longrightarrow> k \<noteq> KSym Propagates_symbol \<longrightarrow> heap st q k = heap st0 q k"
    "\<forall>q. q < nxt st0 \<longrightarrow>
           (heap st q (KSym Propagates_symbol) = None \<longleftrightarrow> heap st0 q (KSym Propagates_symbol) = None)"
    "if js = [] then p = r \<and> nxt st = nxt st0 else nxt st0 \<le> p"
    by (simp_all add: track_inv_def)
  show ?thesis
    unfolding track_inv_def using rest es by simp
qed

lemma track_inv_present:
  assumes I: "track_inv st0 r ks p st js"
    and k: "heap st p (KStr k) \<noteq> None"
    and d: "u_track_key n E k (VRef p) st = Done (v, st')"
  shows "v = VRef (nxt st' - 1) \<and> track_inv st0 r (ks @ [k]) (nxt st' - 1) st' (js @ [(k, symctr st)])"
proof -
  let ?s = "tracked_child (symctr st) k"
  let ?g = "Getter (F_override_propagate_using_parent_context ?s)"
  let ?xs = "map (\<lambda>(k, j). ledger_entry k j) js"
  from I have p: "p < nxt st" and n0: "nxt st0 \<le> nxt st" and s0: "symctr st0 \<le> symctr st"
    and l: "heap st p (KSym tracking_symbol) = Some (Data (VArr ?xs))"
    and m: "map fst js = filter (\<lambda>k. heap st0 r (KStr k) \<noteq> None) ks"
    and u: "\<And>k. k \<notin> fst ` set js \<Longrightarrow> heap st p (KStr k) = heap st0 r (KStr k)"
    and es: "\<And>k j. (k, j) \<in> set js \<Longrightarrow> entry_ok st0 r p st js k j"
    and o1: "\<And>q k. q < nxt st0 \<Longrightarrow> k \<noteq> KSym Propagates_symbol \<Longrightarrow> heap st q k = heap st0 q k"
    and o2: "\<And>q. q < nxt st0 \<Longrightarrow>
           (heap st q (KSym Propagates_symbol) = None) = (heap st0 q (KSym Propagates_symbol) = None)"
    by (auto simp: track_inv_def)
  from u_track_key_present[OF p k l d] obtain c st2 where
    g: "get (call n E) (KStr k) (VRef p) st = Done (c, st2)"
    and fr: "frame st st2" and sc: "symctr st2 = symctr st"
    and v: "v = VRef (nxt st2)"
    and st': "st' = st2\<lparr>heap := (heap st2)(nxt st2 := (heap st2 p)
                        (KSym tracking_symbol \<mapsto> Data (VArr (?xs @ [ledger_entry k (symctr st)])),
                         KSym ?s \<mapsto> Data c, KStr k \<mapsto> ?g)),
                   nxt := Suc (nxt st2), symctr := Suc (symctr st)\<rparr>"
    by blast
  have n2: "nxt st \<le> nxt st2" using fr by (rule frame_nxt)
  have nx: "nxt st' = Suc (nxt st2)" and sy: "symctr st' = Suc (symctr st)" by (simp_all add: st')
  have pp: "nxt st' - 1 = nxt st2" by (simp add: nx)
  have f2: "heap st2 q key = heap st q key" if "q < nxt st" "key \<noteq> KSym Propagates_symbol" for q key
    using fr that by (rule frame_field)
  have f2p: "(heap st2 q (KSym Propagates_symbol) = None) = (heap st q (KSym Propagates_symbol) = None)"
    if "q < nxt st" for q
    using fr that by (rule frame_propagate)
  have old: "heap st' q = heap st2 q" if "q < nxt st2" for q
    using that by (simp add: st')
  have hk: "heap st' (nxt st2) (KStr k) = Some ?g" by (simp add: st')
  have hs: "heap st' (nxt st2) (KSym ?s) = Some (Data c)" by (simp add: st')
  have ht: "heap st' (nxt st2) (KSym tracking_symbol)
              = Some (Data (VArr (?xs @ [ledger_entry k (symctr st)])))" by (simp add: st')
  have ho: "heap st' (nxt st2) (KStr k') = heap st p (KStr k')" if "k' \<noteq> k" for k'
    using that f2[OF p, of "KStr k'"] by (simp add: st')
  have hso: "heap st' (nxt st2) (KSym (tracked_child j k')) = heap st p (KSym (tracked_child j k'))"
    if "j < symctr st" for j k'
    using that f2[OF p, of "KSym (tracked_child j k')"] by (simp add: st')
  have k0: "heap st0 r (KStr k) \<noteq> None"
  proof (cases "k \<in> fst ` set js")
    case False
    with u k show ?thesis by simp
  next
    case True
    then obtain j where "(k, j) \<in> set js" by auto
    from es[OF this] show ?thesis by (auto simp: entry_ok_def)
  qed
  have rd: "c = c1" if "heap st p (KStr k) = Some (Getter (F_override_propagate_using_parent_context s1))"
      "heap st p (KSym s1) = Some (Data c1)" for s1 c1
    using getter_read_Done[OF that g] by simp
  have cv: "c = c0" if c0: "heap st0 r (KStr k) = Some (Data c0)" for c0
  proof (cases "k \<in> fst ` set js")
    case False
    then have "heap st p (KStr k) = Some (Data c0)" using u c0 by simp
    with g show ?thesis by (simp add: get_def)
  next
    case True
    then obtain j where "(k, j) \<in> set js" by auto
    from es[OF this] c0 obtain j' c1 where
      "heap st p (KStr k) = Some (Getter (F_override_propagate_using_parent_context (tracked_child j' k)))"
      "heap st p (KSym (tracked_child j' k)) = Some (Data c1)" "c1 = c0"
      by (auto simp: entry_ok_def)
    with rd show ?thesis by blast
  qed
  have new: "entry_ok st0 r (nxt st2) st' (js @ [(k, symctr st)]) k (symctr st)"
    unfolding entry_ok_def
    by (rule exI[of _ "symctr st"], rule exI[of _ c]) (simp add: sy k0 hk hs cv)
  have keep: "entry_ok st0 r (nxt st2) st' (js @ [(k, symctr st)]) k' j"
    if e: "entry_ok st0 r p st js k' j" for k' j
  proof -
    from e obtain j' c1 where j: "j < symctr st" and j': "j' < symctr st"
      and mo: "map_of (rev js) k' = Some j'"
      and i0: "heap st0 r (KStr k') \<noteq> None"
      and gk: "heap st p (KStr k')
                = Some (Getter (F_override_propagate_using_parent_context (tracked_child j' k')))"
      and s1: "heap st p (KSym (tracked_child j' k')) = Some (Data c1)"
      and s2: "heap st p (KSym (tracked_child j k')) = Some (Data c1)"
      and c0: "\<forall>c0. heap st0 r (KStr k') = Some (Data c0) \<longrightarrow> c1 = c0"
      unfolding entry_ok_def by blast
    show ?thesis
    proof (cases "k' = k")
      case True
      have cc: "c = c1" using rd gk s1 True by simp
      have s2': "heap st p (KSym (tracked_child j k)) = Some (Data c1)" using s2 True by simp
      have hs': "heap st' (nxt st2) (KSym ?s) = Some (Data c1)" using hs cc by simp
      have cv': "\<forall>c0. heap st0 r (KStr k) = Some (Data c0) \<longrightarrow> c1 = c0" using cv cc by simp
      have "entry_ok st0 r (nxt st2) st' (js @ [(k, symctr st)]) k j"
        unfolding entry_ok_def
        by (rule exI[of _ "symctr st"], rule exI[of _ c1])
          (use j in \<open>simp add: sy k0 hk hs' cv' hso s2'\<close>)
      with True show ?thesis by simp
    next
      case False
      show ?thesis
        unfolding entry_ok_def
        by (rule exI[of _ j'], rule exI[of _ c1])
          (use False j j' in \<open>simp add: sy mo i0 ho gk hso s1 s2 c0\<close>)
    qed
  qed
  have all: "\<forall>(k', j)\<in>set (js @ [(k, symctr st)]). entry_ok st0 r (nxt st2) st' (js @ [(k, symctr st)]) k' j"
    using new keep es by auto
  have c1: "nxt st2 < nxt st'" by (simp add: nx)
  have c2: "nxt st0 \<le> nxt st'" using n0 n2 by (simp add: nx)
  have c3: "symctr st0 \<le> symctr st'" using s0 by (simp add: sy)
  have c4: "heap st' (nxt st2) (KSym tracking_symbol)
              = Some (Data (VArr (map (\<lambda>(k, j). ledger_entry k j) (js @ [(k, symctr st)]))))"
    by (simp add: ht)
  have c5: "map fst (js @ [(k, symctr st)]) = filter (\<lambda>k. heap st0 r (KStr k) \<noteq> None) (ks @ [k])"
    using m k0 by simp
  have c6: "\<forall>k'. k' \<notin> fst ` set (js @ [(k, symctr st)])
               \<longrightarrow> heap st' (nxt st2) (KStr k') = heap st0 r (KStr k')"
    using ho u by auto
  have c8: "\<forall>q key. q < nxt st0 \<longrightarrow> key \<noteq> KSym Propagates_symbol \<longrightarrow> heap st' q key = heap st0 q key"
  proof (intro allI impI)
    fix q key assume q: "q < nxt st0" and key: "key \<noteq> KSym Propagates_symbol"
    then have "q < nxt st" "q < nxt st2" using n0 n2 by simp_all
    then show "heap st' q key = heap st0 q key"
      using old[of q] f2[of q key] o1[of q key] q key by simp
  qed
  have c9: "\<forall>q. q < nxt st0 \<longrightarrow>
           (heap st' q (KSym Propagates_symbol) = None \<longleftrightarrow> heap st0 q (KSym Propagates_symbol) = None)"
  proof (intro allI impI)
    fix q assume q: "q < nxt st0"
    then have "q < nxt st" "q < nxt st2" using n0 n2 by simp_all
    then show "(heap st' q (KSym Propagates_symbol) = None) = (heap st0 q (KSym Propagates_symbol) = None)"
      using old[of q] f2p[of q] o2[of q] q by simp
  qed
  have c10: "nxt st0 \<le> nxt st2" using n0 n2 by simp
  have "track_inv st0 r (ks @ [k]) (nxt st2) st' (js @ [(k, symctr st)])"
    unfolding track_inv_def
    using c1 c2 c3 c4 c5 c6 all c8 c9 c10 by simp
  with v pp show ?thesis by simp
qed

lemma fold_track_inv:
  assumes "track_inv st0 r ks p st js"
    and "fold_res (u_track_key n E) ks' (VRef p) st = Done (v, st')"
  shows "\<exists>p' js'. v = VRef p' \<and> track_inv st0 r (ks @ ks') p' st' js'"
  using assms
proof (induction ks' arbitrary: ks p st js)
  case Nil
  then show ?case by auto
next
  case (Cons k ks')
  from Cons.prems(2) obtain v1 st1 where
    s: "u_track_key n E k (VRef p) st = Done (v1, st1)"
    and f: "fold_res (u_track_key n E) ks' v1 st1 = Done (v, st')"
    by (auto simp: bind_res_eq_Done)
  have "\<exists>p1 js1. v1 = VRef p1 \<and> track_inv st0 r (ks @ [k]) p1 st1 js1"
  proof (cases "heap st p (KStr k) = None")
    case True
    from u_track_key_absent[OF True, of n E] s
    have "v1 = VRef p" "st1 = st\<lparr>diag := diag st @ [track_msg k], symctr := Suc (symctr st)\<rparr>"
      by simp_all
    with track_inv_absent[OF Cons.prems(1) True] show ?thesis by blast
  next
    case False
    from track_inv_present[OF Cons.prems(1) False s] show ?thesis by blast
  qed
  then obtain p1 js1 where v1: "v1 = VRef p1" and I1: "track_inv st0 r (ks @ [k]) p1 st1 js1"
    by blast
  from Cons.IH[OF I1 f[unfolded v1]] show ?case by simp
qed

lemma TracksPropagation_fold:
  "TracksPropagation n E keys (VRef r) st = fold_res (u_track_key n E) keys (VRef r) (ledger_reset r st)"
  by (simp add: TracksPropagation_def define_property_mut_def fixed_def ledger_reset_def)

lemma track_inv_start: "r < nxt st \<Longrightarrow> track_inv (ledger_reset r st) r [] r (ledger_reset r st) []"
  by (simp add: track_inv_def ledger_reset_def)

lemma TracksPropagation_inv:
  assumes "r < nxt st" and "TracksPropagation n E keys (VRef r) st = Done (v, st')"
  shows "\<exists>p js. v = VRef p \<and> track_inv (ledger_reset r st) r keys p st' js"
  using fold_track_inv[OF track_inv_start[OF assms(1)], of n E keys v st'] assms(2)
  by (simp add: TracksPropagation_fold)
section \<open>The keys that are tracked without an exception\<close>

lemma trackable_symctr:
  "trackable st p k \<Longrightarrow> trackable (st\<lparr>diag := d, symctr := Suc (symctr st)\<rparr>) p k"
  by (auto simp: trackable_def fixed_def split: option.splits slot.splits val.splits sym.splits)

lemma u_track_key_Done:
  assumes g: "get (call n E) (KStr k) (VRef p) st = Done (c, st2)"
    and k: "heap st p (KStr k) \<noteq> None"
    and k2: "heap st2 p (KStr k) \<noteq> None"
    and nf: "\<not> fixed st2 p (KStr k)"
    and l2: "heap st2 p (KSym tracking_symbol) = Some (Data (VArr xs))"
  shows "\<exists>v st'. u_track_key n E k (VRef p) st = Done (v, st')"
proof -
  have 1: "u_track_key n E k (VRef p) st
      = bind_res (u_add_to_tracking (call n E) k (tracked_child (symctr st2) k) (VRef p)
                    (st2\<lparr>symctr := Suc (symctr st2)\<rparr>)) (\<lambda>(t4, st4).
        bind_res (define_property_mut (KSym (tracked_child (symctr st2) k))
                    (d_non_writable (Data c)) t4 st4) (\<lambda>(t5, st5).
          define_property_mut (KStr k)
            (d_enumerable (Getter (F_override_propagate_using_parent_context
                                     (tracked_child (symctr st2) k)))) t5 st5))"
    using g k k2 by (simp add: u_track_key_def console_assert_def has_def Let_def)
  show ?thesis
    unfolding 1 using l2 nf k2
    by (simp add: u_add_to_tracking_def update_def get_def push_def define_property_mut_def
        fixed_def)
qed

lemma u_track_key_total:
  assumes p: "p < nxt st"
    and l: "heap st p (KSym tracking_symbol) = Some (Data (VArr xs))"
    and t: "trackable st p k"
    and n: "0 < n"
  shows "\<exists>p' st' xs'. u_track_key n E k (VRef p) st = Done (VRef p', st')
           \<and> p' < nxt st' \<and> heap st' p' (KSym tracking_symbol) = Some (Data (VArr xs'))
           \<and> (\<forall>k'. trackable st p k' \<longrightarrow> trackable st' p' k')"
proof (cases "heap st p (KStr k) = None")
  case True
  from u_track_key_absent[OF True, of n E] p l show ?thesis
    by (auto simp: trackable_symctr)
next
  case False
  have "\<exists>c st2. get (call n E) (KStr k) (VRef p) st = Done (c, st2) \<and> frame st st2
           \<and> \<not> fixed st p (KStr k)"
  proof (cases "heap st p (KStr k)")
    case None
    with False show ?thesis by simp
  next
    case (Some sl)
    show ?thesis
    proof (cases sl)
      case (Data c)
      with Some t show ?thesis by (auto simp: get_def trackable_def)
    next
      case (Getter g)
      with Some t obtain s c where gs: "g = F_override_propagate_using_parent_context s"
        and sc: "heap st p (KSym s) = Some (Data c)"
        by (auto simp: trackable_def split: val.splits option.splits slot.splits)
      from n obtain m where m: "n = Suc m" by (cases n) auto
      have "get (call n E) (KStr k) (VRef p) st
              = u_override_propagate (F_propagate_up s (VRef p)) c st"
        unfolding m using Some Getter gs sc by (intro getter_read) simp_all
      moreover have "\<not> fixed st p (KStr k)" using Some Getter by (simp add: fixed_def)
      ultimately show ?thesis
        using override_propagate_frame[of "F_propagate_up s (VRef p)" c st] by auto
    qed
  qed
  then obtain c st2 where g: "get (call n E) (KStr k) (VRef p) st = Done (c, st2)"
    and fr: "frame st st2" and nf: "\<not> fixed st p (KStr k)"
    by blast
  have f2: "heap st2 p key = heap st p key" if "key \<noteq> KSym Propagates_symbol" for key
    using fr p that by (rule frame_field)
  have "\<exists>v st'. u_track_key n E k (VRef p) st = Done (v, st')"
    using g False
  proof (rule u_track_key_Done)
    show "heap st2 p (KStr k) \<noteq> None" using False f2[of "KStr k"] by simp
    show "\<not> fixed st2 p (KStr k)" using nf f2[of "KStr k"] by (simp add: fixed_def)
    show "heap st2 p (KSym tracking_symbol) = Some (Data (VArr xs))"
      using l f2[of "KSym tracking_symbol"] by simp
  qed
  then obtain v st' where d: "u_track_key n E k (VRef p) st = Done (v, st')" by blast
  let ?s = "tracked_child (symctr st) k"
  from u_track_key_present[OF p False l d] obtain c' st2' where
    fr': "frame st st2'" and v: "v = VRef (nxt st2')"
    and st': "st' = st2'\<lparr>heap := (heap st2')(nxt st2' := (heap st2' p)
                        (KSym tracking_symbol \<mapsto> Data (VArr (xs @ [ledger_entry k (symctr st)])),
                         KSym ?s \<mapsto> Data c',
                         KStr k \<mapsto> Getter (F_override_propagate_using_parent_context ?s))),
                   nxt := Suc (nxt st2'), symctr := Suc (symctr st)\<rparr>"
    by blast
  have f3: "heap st2' p key = heap st p key" if "key \<noteq> KSym Propagates_symbol" for key
    using fr' p that by (rule frame_field)
  have pres: "trackable st' (nxt st2') k'" if tk: "trackable st p k'" for k'
  proof (cases "k' = k")
    case True
    then show ?thesis by (simp add: trackable_def st')
  next
    case False
    have a: "heap st' (nxt st2') (KStr k') = heap st p (KStr k')"
      using False f3[of "KStr k'"] by (simp add: st')
    have b: "heap st' (nxt st2') (KSym (tracked_child j k'')) = heap st p (KSym (tracked_child j k''))"
      if "j < symctr st" for j k''
      using that f3[of "KSym (tracked_child j k'')"] by (simp add: st')
    have sy: "symctr st' = Suc (symctr st)" by (simp add: st')
    show ?thesis
      using tk unfolding trackable_def a fixed_def
      by (auto simp: b sy split: option.splits slot.splits val.splits sym.splits)
  qed
  show ?thesis
    using d v pres by (auto simp: st')
qed

lemma fold_u_track_key_total:
  assumes "p < nxt st"
    and "heap st p (KSym tracking_symbol) = Some (Data (VArr xs))"
    and "list_all (trackable st p) ks"
    and "0 < n"
  shows "\<exists>v st'. fold_res (u_track_key n E) ks (VRef p) st = Done (v, st')"
  using assms(1-3)
proof (induction ks arbitrary: p st xs)
  case Nil
  then show ?case by simp
next
  case (Cons k ks)
  from Cons.prems(3) have tk: "trackable st p k" and tks: "list_all (trackable st p) ks" by simp_all
  from u_track_key_total[OF Cons.prems(1,2) tk assms(4), of E] obtain p' st' xs' where
    d: "u_track_key n E k (VRef p) st = Done (VRef p', st')"
    and p': "p' < nxt st'"
    and l': "heap st' p' (KSym tracking_symbol) = Some (Data (VArr xs'))"
    and pres: "\<forall>k'. trackable st p k' \<longrightarrow> trackable st' p' k'"
    by blast
  have "list_all (trackable st' p') ks" using tks pres by (simp add: list_all_iff)
  from Cons.IH[OF p' l' this] d show ?case by simp
qed

lemma trackable_ledger_reset: "trackable st r k \<Longrightarrow> trackable (ledger_reset r st) r k"
  by (auto simp: trackable_def fixed_def ledger_reset_def
      split: option.splits slot.splits val.splits sym.splits)

lemma TracksPropagation_total:
  assumes "r < nxt st" and "0 < n" and "list_all (trackable st r) keys"
  shows "\<exists>v st'. TracksPropagation n E keys (VRef r) st = Done (v, st')"
proof -
  have 1: "r < nxt (ledger_reset r st)" using assms(1) by (simp add: ledger_reset_def)
  have 2: "heap (ledger_reset r st) r (KSym tracking_symbol) = Some (Data (VArr []))"
    by (simp add: ledger_reset_def)
  have 3: "list_all (trackable (ledger_reset r st) r) keys"
    using assms(3) by (simp add: list_all_iff trackable_ledger_reset)
  from fold_u_track_key_total[OF 1 2 3 assms(2)] show ?thesis
    by (simp add: TracksPropagation_fold)
qed

section \<open>The fold of index.js\<close>

lemma track_inv_js_step:
  assumes I: "track_inv_js st0 r ks p st"
    and d: "u_track_key_js n E k (VRef p) st = Done (v, st')"
  shows "\<exists>p'. v = VRef p' \<and> track_inv_js st0 r (ks @ [k]) p' st'"
proof (cases "heap st p (KStr k) = None")
  case True
  from u_track_key_js_absent[OF True, of n E] d
  have v: "v = VRef p" and st': "st' = st\<lparr>diag := diag st @ [track_msg k]\<rparr>" by simp_all
  from I True have "heap st0 r (KStr k) = None" by (simp add: track_inv_js_def)
  with I have "track_inv_js st0 r (ks @ [k]) p st'"
    by (simp add: track_inv_js_def st')
  with v show ?thesis by blast
next
  case False
  from I have p: "p < nxt st" and n0: "nxt st0 \<le> nxt st"
    and pr: "\<And>k. (heap st p (KStr k) = None) = (heap st0 r (KStr k) = None)"
    and sy: "\<And>s. s \<noteq> Propagates_symbol \<Longrightarrow> heap st p (KSym s) = heap st0 r (KSym s)"
    by (auto simp: track_inv_js_def)
  from u_track_key_js_present[OF p False d] obtain c st2 where
    fr: "frame st st2" and v: "v = VRef (nxt st2)"
    and st': "st' = st2\<lparr>heap := (heap st2)(nxt st2 := (heap st2 p)(KStr k \<mapsto> Data c)),
                       nxt := Suc (nxt st2)\<rparr>"
    by blast
  have n2: "nxt st \<le> nxt st2" using fr by (rule frame_nxt)
  have f2: "heap st2 p key = heap st p key" if "key \<noteq> KSym Propagates_symbol" for key
    using fr p that by (rule frame_field)
  have k0: "heap st0 r (KStr k) \<noteq> None" using False pr by simp
  have a: "(heap st' (nxt st2) (KStr k') = None) = (heap st0 r (KStr k') = None)" for k'
    using k0 pr[of k'] f2[of "KStr k'"] by (simp add: st')
  have b: "heap st' (nxt st2) (KSym s) = heap st0 r (KSym s)" if "s \<noteq> Propagates_symbol" for s
    using that sy[of s] f2[of "KSym s"] by (simp add: st')
  have "track_inv_js st0 r (ks @ [k]) (nxt st2) st'"
    unfolding track_inv_js_def using a b k0 n0 n2 by (simp add: st')
  with v show ?thesis by blast
qed

lemma fold_track_inv_js:
  assumes "track_inv_js st0 r ks p st"
    and "fold_res (u_track_key_js n E) ks' (VRef p) st = Done (v, st')"
  shows "\<exists>p'. v = VRef p' \<and> track_inv_js st0 r (ks @ ks') p' st'"
  using assms
proof (induction ks' arbitrary: ks p st)
  case Nil
  then show ?case by auto
next
  case (Cons k ks')
  from Cons.prems(2) obtain v1 st1 where
    s: "u_track_key_js n E k (VRef p) st = Done (v1, st1)"
    and f: "fold_res (u_track_key_js n E) ks' v1 st1 = Done (v, st')"
    by (auto simp: bind_res_eq_Done)
  from track_inv_js_step[OF Cons.prems(1) s] obtain p1 where
    v1: "v1 = VRef p1" and I1: "track_inv_js st0 r (ks @ [k]) p1 st1"
    by blast
  from Cons.IH[OF I1 f[unfolded v1]] show ?case by simp
qed

lemma TracksPropagation_js_inv:
  assumes "r < nxt st" and "TracksPropagation_js n E keys (VRef r) st = Done (v, st')"
  shows "\<exists>p. v = VRef p \<and> track_inv_js st r keys p st'"
proof -
  have "track_inv_js st r [] r st" using assms(1) by (simp add: track_inv_js_def)
  from fold_track_inv_js[OF this, of n E keys v st'] assms(2) show ?thesis
    by (simp add: TracksPropagation_js_def)
qed

lemma u_track_key_js_total:
  assumes p: "p < nxt st" and t: "plain_key st p k"
  shows "\<exists>p' st'. u_track_key_js n E k (VRef p) st = Done (VRef p', st')
           \<and> p' < nxt st' \<and> (\<forall>k'. plain_key st p k' \<longrightarrow> plain_key st' p' k')"
proof (cases "heap st p (KStr k) = None")
  case True
  have "plain_key (st\<lparr>diag := d\<rparr>) p k' = plain_key st p k'" for d k'
    by (simp add: plain_key_def fixed_def split: option.splits slot.splits)
  with u_track_key_js_absent[OF True, of n E] p show ?thesis
    by auto
next
  case False
  with t obtain c where c: "heap st p (KStr k) = Some (Data c)"
    and nf: "\<not> fixed st p (KStr k)"
    by (auto simp: plain_key_def split: option.splits slot.splits)
  obtain st2 where o: "u_override_propagate (F_propagate_up_js k (VRef p)) c st = Done (c, st2)"
    and fr: "frame st st2"
    using override_propagate_frame[of "F_propagate_up_js k (VRef p)" c st] by blast
  let ?st' = "st2\<lparr>heap := (heap st2)(nxt st2 := (heap st2 p)(KStr k \<mapsto> Data c)),
                  nxt := Suc (nxt st2)\<rparr>"
  have d: "u_track_key_js n E k (VRef p) st = Done (VRef (nxt st2), ?st')"
    using c o by (simp add: u_track_key_js_def console_assert_def has_def update_def get_def Let_def)
  have f2: "heap st2 p key = heap st p key" if "key \<noteq> KSym Propagates_symbol" for key
    using fr p that by (rule frame_field)
  have "plain_key ?st' (nxt st2) k'" if "plain_key st p k'" for k'
    using that f2[of "KStr k'"] c nf
    by (auto simp: plain_key_def fixed_def split: option.splits slot.splits)
  with d show ?thesis by auto
qed

lemma TracksPropagation_js_total:
  assumes "r < nxt st" and "list_all (plain_key st r) keys"
  shows "\<exists>v st'. TracksPropagation_js n E keys (VRef r) st = Done (v, st')"
  unfolding TracksPropagation_js_def using assms
proof (induction keys arbitrary: r st)
  case Nil
  then show ?case by simp
next
  case (Cons k ks)
  from Cons.prems(2) have tk: "plain_key st r k" and tks: "list_all (plain_key st r) ks" by simp_all
  from u_track_key_js_total[OF Cons.prems(1) tk, of n E] obtain p' st' where
    d: "u_track_key_js n E k (VRef r) st = Done (VRef p', st')"
    and p': "p' < nxt st'"
    and pres: "\<forall>k'. plain_key st r k' \<longrightarrow> plain_key st' p' k'"
    by blast
  have "list_all (plain_key st' p') ks" using tks pres by (simp add: list_all_iff)
  from Cons.IH[OF p' this] d show ?case by simp
qed
section \<open>A commit through a tracked key\<close>

text \<open>
  The commit \<^verbatim>\<open>parent[a].commute(updater)\<close> on a parent that tracks \<open>a\<close>: the read
  of \<open>a\<close> aims the propagate field of the child at the parent read, the private commit
  copies the child with the new state, and \<^verbatim>\<open>propagate_up\<close> copies the parent with the
  new child under the symbol of \<open>a\<close>.
\<close>

lemma commit_key_run:
  assumes ta: "tracks st p a ja ca" and ca: "commuting st ca va"
  shows "commit_key (Suc (Suc (Suc (Suc n)))) E a i (VRef p) st
       = Done (VRef (Suc (nxt st)),
           st\<lparr>heap := (heap st)
                 (ca := (heap st ca)(KSym Propagates_symbol
                          \<mapsto> Data (F_propagate_up (tracked_child ja a) (VRef p))),
                  nxt st := (heap st ca)(KSym Propagates_symbol
                          \<mapsto> Data (F_propagate_up (tracked_child ja a) (VRef p)),
                        KStr ''state'' \<mapsto> Data (E i
                          (st\<lparr>heap := (heap st)(ca := (heap st ca)(KSym Propagates_symbol
                                \<mapsto> Data (F_propagate_up (tracked_child ja a) (VRef p))))\<rparr>) va)),
                  Suc (nxt st) := (if p = ca
                        then (heap st ca)(KSym Propagates_symbol
                               \<mapsto> Data (F_propagate_up (tracked_child ja a) (VRef p)))
                        else heap st p)(KSym (tracked_child ja a) \<mapsto> Data (VRef (nxt st)))),
               nxt := Suc (Suc (nxt st))\<rparr>)"
proof -
  from ta have p: "p < nxt st" "p \<noteq> nxt st"
    and g: "heap st p (KStr a)
              = Some (Getter (F_override_propagate_using_parent_context (tracked_child ja a)))"
    and s: "heap st p (KSym (tracked_child ja a)) = Some (Data (VRef ca))"
    by (auto simp: tracks_def)
  from ca have c: "ca < nxt st" "ca \<noteq> nxt st"
    and c1: "heap st ca (KStr ''state'') = Some (Data va)"
    and c2: "heap st ca (KStr ''commute'') = Some (Data F_proxy_commute)"
    and c3: "heap st ca (KSym Commutes_symbol) = Some (Data (F_propagating_commute F_commute))"
    and c4: "heap st ca (KSym Propagates_symbol) \<noteq> None"
    by (auto simp: commuting_def)
  show ?thesis
    using p g s c c1 c2 c3 c4
    by (auto simp: commit_key_def get_def override_propagate_using_parent_context_def
        u_override_propagate_def override_internal_def console_assert_def has_def
        define_property_mut_def fixed_def invoke_def u_proxy_commute_def propagating_commute_def
        u_commute_def update_def propagate_up_def Let_def)
qed

lemma commit_step:
  assumes ta: "tracks st p a ja ca" and tb: "tracks st p b jb cb" and ab: "a \<noteq> b"
    and ca: "commuting st ca va" and cb: "commuting st cb vb"
  shows "\<exists>st1. commit_key (Suc (Suc (Suc (Suc n)))) E a i (VRef p) st
                 = Done (VRef (Suc (nxt st)), st1)
           \<and> nxt st1 = Suc (Suc (nxt st))
           \<and> tracks st1 (Suc (nxt st)) a ja (nxt st)
           \<and> commuting st1 (nxt st)
               (E i (st\<lparr>heap := (heap st)(ca := (heap st ca)(KSym Propagates_symbol
                        \<mapsto> Data (F_propagate_up (tracked_child ja a) (VRef p))))\<rparr>) va)
           \<and> tracks st1 (Suc (nxt st)) b jb cb \<and> commuting st1 cb vb
           \<and> tracks st1 p a ja ca \<and> tracks st1 p b jb cb \<and> commuting st1 ca va"
proof -
  from ta tb have p: "p < nxt st" "p \<noteq> nxt st" "p \<noteq> Suc (nxt st)"
    and g: "heap st p (KStr a)
              = Some (Getter (F_override_propagate_using_parent_context (tracked_child ja a)))"
    and s: "heap st p (KSym (tracked_child ja a)) = Some (Data (VRef ca))"
    and g': "heap st p (KStr b)
              = Some (Getter (F_override_propagate_using_parent_context (tracked_child jb b)))"
    and s': "heap st p (KSym (tracked_child jb b)) = Some (Data (VRef cb))"
    by (auto simp: tracks_def)
  from ca have c: "ca < nxt st" "ca \<noteq> nxt st" "ca \<noteq> Suc (nxt st)"
    and c1: "heap st ca (KStr ''state'') = Some (Data va)"
    and c2: "heap st ca (KStr ''commute'') = Some (Data F_proxy_commute)"
    and c3: "heap st ca (KSym Commutes_symbol) = Some (Data (F_propagating_commute F_commute))"
    and c4: "heap st ca (KSym Propagates_symbol) \<noteq> None"
    by (auto simp: commuting_def)
  from cb have d: "cb < nxt st" "cb \<noteq> nxt st" "cb \<noteq> Suc (nxt st)"
    and d1: "heap st cb (KStr ''state'') = Some (Data vb)"
    and d2: "heap st cb (KStr ''commute'') = Some (Data F_proxy_commute)"
    and d3: "heap st cb (KSym Commutes_symbol) = Some (Data (F_propagating_commute F_commute))"
    and d4: "heap st cb (KSym Propagates_symbol) \<noteq> None"
    by (auto simp: commuting_def)
  show ?thesis
    unfolding commit_key_run[OF ta ca]
    using p g s g' s' c c1 c2 c3 c4 d d1 d2 d3 d4 ab
    by (auto simp: tracks_def commuting_def)
qed

text \<open>
  A sequence of commits on the keys \<open>a\<close> and \<open>b\<close>, each on the parent that the commit
  before returned, with updaters that do not read the store: the child at each key has
  the updaters committed at that key applied to its state, in their order.
\<close>

lemma commits_run:
  assumes "tracks st p a ja ca" and "tracks st p b jb cb" and "a \<noteq> b"
    and "commuting st ca va" and "commuting st cb vb"
    and "\<forall>(k, i)\<in>set ks. (k = a \<or> k = b) \<and> (\<forall>s v. E i s v = U i v)"
  shows "\<exists>p' ca' cb' st'.
           commits (Suc (Suc (Suc (Suc n)))) E ks (VRef p) st = Done (VRef p', st')
         \<and> tracks st' p' a ja ca' \<and> tracks st' p' b jb cb'
         \<and> commuting st' ca' (fold U (map snd (filter (\<lambda>(k, i). k = a) ks)) va)
         \<and> commuting st' cb' (fold U (map snd (filter (\<lambda>(k, i). k = b) ks)) vb)"
  using assms(1,2,4,5,6)
proof (induction ks arbitrary: st p ca cb va vb)
  case Nil
  then show ?case by (auto simp: commits_def)
next
  case (Cons x ks)
  obtain k i where x: "x = (k, i)" by (cases x)
  from Cons.prems(5) x have k: "k = a \<or> k = b" and U: "\<And>s v. E i s v = U i v"
    and rest: "\<forall>(k, i)\<in>set ks. (k = a \<or> k = b) \<and> (\<forall>s v. E i s v = U i v)"
    by auto
  from k show ?case
  proof
    assume ka: "k = a"
    from commit_step[OF Cons.prems(1,2) assms(3) Cons.prems(3,4), of n E i] obtain st1 where
      r: "commit_key (Suc (Suc (Suc (Suc n)))) E a i (VRef p) st = Done (VRef (Suc (nxt st)), st1)"
      and t1: "tracks st1 (Suc (nxt st)) a ja (nxt st)"
      and c1: "commuting st1 (nxt st) (U i va)"
      and t2: "tracks st1 (Suc (nxt st)) b jb cb" and c2: "commuting st1 cb vb"
      unfolding U by blast
    from Cons.IH[OF t1 t2 c1 c2 rest] r show ?thesis
      using assms(3) by (simp add: commits_def x ka)
  next
    assume kb: "k = b"
    from commit_step[OF Cons.prems(2,1) assms(3)[symmetric] Cons.prems(4,3), of n E i] obtain st1 where
      r: "commit_key (Suc (Suc (Suc (Suc n)))) E b i (VRef p) st = Done (VRef (Suc (nxt st)), st1)"
      and t1: "tracks st1 (Suc (nxt st)) b jb (nxt st)"
      and c1: "commuting st1 (nxt st) (U i vb)"
      and t2: "tracks st1 (Suc (nxt st)) a ja ca" and c2: "commuting st1 ca va"
      unfolding U by blast
    from Cons.IH[OF t2 t1 c2 c1 rest] r show ?thesis
      using assms(3) by (simp add: commits_def x kb)
  qed
qed
section \<open>What tracking establishes\<close>

lemma ledger_reset_simps [simp]:
  "nxt (ledger_reset r st) = nxt st"
  "symctr (ledger_reset r st) = symctr st"
  "heap (ledger_reset r st) q (KStr k) = heap st q (KStr k)"
  "s \<noteq> tracking_symbol \<Longrightarrow> heap (ledger_reset r st) q (KSym s) = heap st q (KSym s)"
  by (simp_all add: ledger_reset_def)

lemma track_inv_ledger:
  assumes "track_inv st0 r ks p st js"
  shows "tracked st (VRef p) = map (\<lambda>(k, j). ledger_entry k j) js"
    and "tracked_keys st (VRef p) = map VStr (filter (\<lambda>k. heap st0 r (KStr k) \<noteq> None) ks)"
proof -
  show 1: "tracked st (VRef p) = map (\<lambda>(k, j). ledger_entry k j) js"
    using assms by (simp add: track_inv_def tracked_def peek_def)
  have "tracked_keys st (VRef p) = map VStr (map fst js)"
    by (simp add: tracked_keys_def 1 peek_def ledger_entry_def split_beta)
  also have "map fst js = filter (\<lambda>k. heap st0 r (KStr k) \<noteq> None) ks"
    using assms by (simp add: track_inv_def)
  finally show "tracked_keys st (VRef p) = map VStr (filter (\<lambda>k. heap st0 r (KStr k) \<noteq> None) ks)" .
qed

lemma track_inv_entry:
  assumes I: "track_inv st0 r ks p st js" and "k \<in> set ks" and "heap st0 r (KStr k) \<noteq> None"
  shows "\<exists>j. (k, j) \<in> set js"
proof -
  have "k \<in> set (filter (\<lambda>k. heap st0 r (KStr k) \<noteq> None) ks)" using assms(2,3) by simp
  also have "filter (\<lambda>k. heap st0 r (KStr k) \<noteq> None) ks = map fst js"
    using I by (simp add: track_inv_def)
  finally show ?thesis by auto
qed

lemma tracking_tracks:
  assumes r: "r < nxt st"
    and d: "TracksPropagation n E keys (VRef r) st = Done (v, st')"
    and a: "a \<in> set keys"
    and c: "heap st r (KStr a) = Some (Data (VRef ca))"
  shows "\<exists>p ja. v = VRef p \<and> tracks st' p a ja ca"
proof -
  from TracksPropagation_inv[OF r d] obtain p js where v: "v = VRef p"
    and I: "track_inv (ledger_reset r st) r keys p st' js"
    by blast
  from track_inv_entry[OF I a] c obtain j where "(a, j) \<in> set js" by auto
  with I have "entry_ok (ledger_reset r st) r p st' js a j" by (auto simp: track_inv_def)
  with c obtain j' where
    "heap st' p (KStr a) = Some (Getter (F_override_propagate_using_parent_context (tracked_child j' a)))"
    "heap st' p (KSym (tracked_child j' a)) = Some (Data (VRef ca))"
    by (auto simp: entry_ok_def)
  moreover from I have "p < nxt st'" by (simp add: track_inv_def)
  ultimately have "tracks st' p a j' ca" by (simp add: tracks_def)
  with v show ?thesis by blast
qed

lemma tracking_commuting:
  assumes r: "r < nxt st"
    and d: "TracksPropagation n E keys (VRef r) st = Done (v, st')"
    and c: "commuting st c s"
  shows "commuting st' c s"
proof -
  from TracksPropagation_inv[OF r d] obtain p js where
    I: "track_inv (ledger_reset r st) r keys p st' js"
    by blast
  from c have cn: "c < nxt st" by (simp add: commuting_def)
  from I have n: "nxt st \<le> nxt st'"
    and o1: "\<And>q k. q < nxt st \<Longrightarrow> k \<noteq> KSym Propagates_symbol
               \<Longrightarrow> heap st' q k = heap (ledger_reset r st) q k"
    and o2: "\<And>q. q < nxt st \<Longrightarrow> (heap st' q (KSym Propagates_symbol) = None)
               = (heap (ledger_reset r st) q (KSym Propagates_symbol) = None)"
    by (auto simp: track_inv_def)
  show ?thesis
    using c cn n o1[OF cn, of "KStr ''state''"] o1[OF cn, of "KStr ''commute''"]
      o1[OF cn, of "KSym Commutes_symbol"] o2[OF cn]
    by (simp add: commuting_def)
qed

lemma attach_commuting:
  assumes "c < nxt st" and "heap st c (KStr ''state'') = Some (Data s)"
    and "heap st c (KSym Commutes_symbol) = None"
  shows "\<exists>stC stP. Commutes (VRef c) st = Done (VRef c, stC)
           \<and> Propagates n E (VRef c) stC = Done (VRef c, stP) \<and> commuting stP c s"
  using assms by (simp add: attach_defs get_def commuting_def)
section \<open>Attaching Commutes to a node without state\<close>

text \<open>
  C7. A node with no \<^verbatim>\<open>state\<close> field: \<^verbatim>\<open>Commutes\<close>, in both variants, records the
  diagnostic and returns the node it was given; nothing else of the state changes: no
  object of the store changes (so the node has neither \<^verbatim>\<open>commute\<close> nor the private
  commute field afterwards, if it had none before), no object is created, and the
  result is a value, not an exception.
\<close>

theorem Commutes_without_state:
  assumes "\<not> has (KStr ''state'') (VRef r) st"
  shows "Commutes_js (VRef r) st
           = Done (VRef r,
               st\<lparr>diag := diag st @ [''The `target` object of `Commutes` must have a state key!'']\<rparr>)
       \<and> Commutes (VRef r) st
           = Done (VRef r,
               st\<lparr>diag := diag st @ [''The `target` object of `Commutes` must have a state key!'']
                     @ (if has (KSym Commutes_symbol) (VRef r) st
                        then [''Commutes: `target` is already `Commutes`!''] else [])\<rparr>)"
  using assms
  by (simp add: Commutes_js_def Commutes_def console_assert_def has_def Let_def)

text \<open>The test of the source: \<^verbatim>\<open>Commutes({ v: 5 })\<close> is the object it was given.\<close>

theorem Commutes_without_state_witness:
  "\<not> has (KStr ''state'') (VRef 0) (snd (new_object [(KStr ''v'', Data (VNum 5))] empty_state))
   \<and> (\<exists>st'. Commutes_js (VRef 0) (snd (new_object [(KStr ''v'', Data (VNum 5))] empty_state))
              = Done (VRef 0, st')
          \<and> heap st' 0 (KStr ''commute'') = None \<and> heap st' 0 (KSym Commutes_symbol) = None)
   \<and> (\<exists>st'. Commutes (VRef 0) (snd (new_object [(KStr ''v'', Data (VNum 5))] empty_state))
              = Done (VRef 0, st')
          \<and> heap st' 0 (KStr ''commute'') = None \<and> heap st' 0 (KSym Commutes_symbol) = None)"
  using Commutes_without_state [of 0 "snd (new_object [(KStr ''v'', Data (VNum 5))] empty_state)"]
  by (simp add: has_def new_object_def empty_state_def)

section \<open>Committing on a node that commutes\<close>

text \<open>
  C5. A node with a \<^verbatim>\<open>state\<close> field to which \<^verbatim>\<open>Commutes\<close> (of either variant) has been
  attached, which both variants do: \<^verbatim>\<open>node.commute(updater)\<close> returns a new node, not
  the receiver, whose state is the updater applied to the receiver's state and whose
  every other field is the receiver's; every object that existed before, the receiver
  among them, is as it was, and nothing is logged.
\<close>

theorem commute_new_node:
  assumes "r < nxt st"
    and "heap st r (KStr ''state'') = Some (Data s)"
    and "heap st r (KSym Commutes_symbol) = None"
  shows "(\<exists>t st1. Commutes_js (VRef r) st = Done (t, st1))
       \<and> (\<exists>t st1. Commutes (VRef r) st = Done (t, st1))
       \<and> (\<forall>t st1. Commutes_js (VRef r) st = Done (t, st1) \<or> Commutes (VRef r) st = Done (t, st1) \<longrightarrow>
            (case invoke (Suc (Suc (Suc n))) E (KStr ''commute'') (VRef r) (F_user i) st1 of
               Done (v, st') \<Rightarrow>
                 v = VRef (nxt st1) \<and> nxt st1 \<noteq> r
                 \<and> heap st' (nxt st1) (KStr ''state'') = Some (Data (E i st1 s))
                 \<and> (\<forall>k. k \<noteq> KStr ''state'' \<longrightarrow> heap st' (nxt st1) k = heap st1 r k)
                 \<and> (\<forall>r'. r' \<noteq> nxt st1 \<longrightarrow> heap st' r' = heap st1 r')
                 \<and> diag st' = diag st1
             | _ \<Rightarrow> False))"
  using assms
  by (auto simp add: invoke_def attach_defs get_def u_proxy_commute_def u_commute_def update_def)

text \<open>The test of the source: \<^verbatim>\<open>Commutes({ state: v5 }).commute(_ => 0).state\<close> is 0.\<close>

theorem commute_new_node_witness:
  "0 < nxt (snd (new_object [(KStr ''state'', Data (VNum 5))] empty_state))
   \<and> heap (snd (new_object [(KStr ''state'', Data (VNum 5))] empty_state)) 0 (KStr ''state'')
        = Some (Data (VNum 5))
   \<and> heap (snd (new_object [(KStr ''state'', Data (VNum 5))] empty_state)) 0 (KSym Commutes_symbol)
        = None
   \<and> (\<exists>st1 st'. Commutes (VRef 0) (snd (new_object [(KStr ''state'', Data (VNum 5))] empty_state))
            = Done (VRef 0, st1)
        \<and> invoke (Suc (Suc (Suc 0))) (\<lambda>_ _ _. VNum 0) (KStr ''commute'') (VRef 0) (F_user 0) st1
            = Done (VRef 1, st')
        \<and> heap st' 1 (KStr ''state'') = Some (Data (VNum 0))
        \<and> heap st' 0 (KStr ''state'') = Some (Data (VNum 5)))"
  using commute_new_node [where r = 0 and s = "VNum 5" and n = 0 and i = 0
      and E = "\<lambda>_ _ _. VNum 0"
      and st = "snd (new_object [(KStr ''state'', Data (VNum 5))] empty_state)"]
  by (auto simp add: new_object_def empty_state_def attach_defs invoke_def get_def
      u_proxy_commute_def u_commute_def update_def)

section \<open>A propagating node that no parent tracks\<close>

text \<open>
  C4. A node with \<^verbatim>\<open>Commutes\<close> and then \<^verbatim>\<open>Propagates\<close> attached, tracked by no parent.
  \<^verbatim>\<open>Propagates\<close> returns the node with the identity installed as its propagate behaviour
  (\<open>propagate(x) = x\<close> for every \<open>x\<close>). Its \<^verbatim>\<open>commute\<close> then returns, for every updater,
  exactly what the private commit behaviour \<^verbatim>\<open>_commute\<close> returns on the node, which is
  also what \<^verbatim>\<open>commute\<close> returns when only \<^verbatim>\<open>Commutes\<close> is attached: for an updater of the
  caller, a new node with the updater applied to the state and the other fields shared.
\<close>

theorem propagating_untracked_commute:
  assumes "heap st r (KStr ''state'') = Some (Data s)"
    and "heap st r (KSym Commutes_symbol) = None"
  shows "(\<exists>t stC. Commutes_js (VRef r) st = Done (t, stC))
       \<and> (\<exists>t stC. Commutes (VRef r) st = Done (t, stC))
       \<and> (\<forall>t0 stC. Commutes_js (VRef r) st = Done (t0, stC) \<or> Commutes (VRef r) st = Done (t0, stC) \<longrightarrow>
           (case Propagates m E (VRef r) stC of
              Done (t, stP) \<Rightarrow>
                t = VRef r
                \<and> heap stP r (KSym Propagates_symbol) = Some (Data F_id)
                \<and> (\<forall>this x s'. call (Suc k) E F_id this x s' = Done (x, s'))
                \<and> (\<forall>u. invoke (Suc (Suc (Suc k))) E (KStr ''commute'') (VRef r) u stP
                       = call (Suc k) E F_commute (VRef r) u stP)
                \<and> (\<forall>u. invoke (Suc (Suc k)) E (KStr ''commute'') (VRef r) u stC
                       = call (Suc k) E F_commute (VRef r) u stC)
                \<and> (\<forall>i. invoke (Suc (Suc (Suc (Suc k)))) E (KStr ''commute'') (VRef r) (F_user i) stP
                       = Done (VRef (nxt stP),
                           stP\<lparr>heap := (heap stP)(nxt stP := (heap stP r)(KStr ''state'' \<mapsto> Data (E i stP s))),
                               nxt := Suc (nxt stP)\<rparr>))
                \<and> (\<forall>i. invoke (Suc (Suc (Suc k))) E (KStr ''commute'') (VRef r) (F_user i) stC
                       = Done (VRef (nxt stC),
                           stC\<lparr>heap := (heap stC)(nxt stC := (heap stC r)(KStr ''state'' \<mapsto> Data (E i stC s))),
                               nxt := Suc (nxt stC)\<rparr>))
            | _ \<Rightarrow> False))"
  using assms
  by (auto simp add: attach_defs invoke_def get_def u_proxy_commute_def propagating_commute_def
      u_commute_def update_def bind_res_body_id)

text \<open>\<^verbatim>\<open>Propagates(Commutes({ state: [] })).commute(push(0))\<close> is a new node with state \<^verbatim>\<open>[0]\<close>.\<close>

theorem propagating_untracked_commute_witness:
  "heap (snd (new_object [(KStr ''state'', Data (VArr []))] empty_state)) 0 (KStr ''state'')
        = Some (Data (VArr []))
   \<and> heap (snd (new_object [(KStr ''state'', Data (VArr []))] empty_state)) 0 (KSym Commutes_symbol)
        = None
   \<and> (\<exists>stC stP st'. Commutes (VRef 0) (snd (new_object [(KStr ''state'', Data (VArr []))] empty_state))
              = Done (VRef 0, stC)
        \<and> Propagates 0 test_env (VRef 0) stC = Done (VRef 0, stP)
        \<and> invoke (Suc (Suc (Suc (Suc 0)))) test_env (KStr ''commute'') (VRef 0) (F_user 0) stP
              = Done (VRef 1, st')
        \<and> heap st' 1 (KStr ''state'') = Some (Data (VArr [VNum 0]))
        \<and> heap st' 0 (KStr ''state'') = Some (Data (VArr [])))"
  using propagating_untracked_commute [where r = 0 and s = "VArr []" and m = 0 and k = 0
      and E = test_env
      and st = "snd (new_object [(KStr ''state'', Data (VArr []))] empty_state)"]
  by (auto simp add: new_object_def empty_state_def attach_defs get_def push_0_def test_env_def
      invoke_def u_proxy_commute_def propagating_commute_def u_commute_def update_def)

section \<open>Overriding propagate\<close>

text \<open>
  C3. A node with \<^verbatim>\<open>Commutes\<close> and \<^verbatim>\<open>Propagates\<close> attached, on which
  \<^verbatim>\<open>Propagates.override(f)\<close> then installs \<open>f\<close>: the override returns the node with \<open>f\<close> in
  its propagate field, where the identity was, and \<^verbatim>\<open>commute(u)\<close> returns \<open>f\<close> called on
  the result of the private commit behaviour \<^verbatim>\<open>_commute\<close>. The wrapper installed by
  \<^verbatim>\<open>Propagates\<close> therefore reads the propagate field when it is called.
\<close>

theorem override_propagate_commute:
  assumes "heap st r (KStr ''state'') = Some (Data s)"
    and "heap st r (KSym Commutes_symbol) = None"
  shows "(\<exists>t stC. Commutes_js (VRef r) st = Done (t, stC))
       \<and> (\<exists>t stC. Commutes (VRef r) st = Done (t, stC))
       \<and> (\<forall>t0 stC. Commutes_js (VRef r) st = Done (t0, stC) \<or> Commutes (VRef r) st = Done (t0, stC) \<longrightarrow>
           (case Propagates m E (VRef r) stC of
              Done (t, stP) \<Rightarrow>
                (case u_override_propagate f (VRef r) stP of
                   Done (t', stO) \<Rightarrow>
                     t' = VRef r
                     \<and> heap stP r (KSym Propagates_symbol) = Some (Data F_id)
                     \<and> heap stO r (KSym Propagates_symbol) = Some (Data f)
                     \<and> (\<forall>u. invoke (Suc (Suc (Suc k))) E (KStr ''commute'') (VRef r) u stO
                          = bind_res (call (Suc k) E F_commute (VRef r) u stO)
                              (\<lambda>(result, st2). call (Suc k) E f (VRef r) result st2))
                 | _ \<Rightarrow> False)
            | _ \<Rightarrow> False))"
  using assms
  by (auto simp add: attach_defs invoke_def get_def u_proxy_commute_def propagating_commute_def
      call_Suc_eta)

text \<open>
  The test of the source: with \<^verbatim>\<open>emit_smoke\<close> installed,
  \<^verbatim>\<open>smoke_test.commute(push(0))\<close> is \<^verbatim>\<open>[ smoke, [0] ]\<close>.
\<close>

theorem override_propagate_commute_witness:
  "heap (snd (new_object [(KStr ''state'', Data (VArr []))] empty_state)) 0 (KStr ''state'')
        = Some (Data (VArr []))
   \<and> heap (snd (new_object [(KStr ''state'', Data (VArr []))] empty_state)) 0 (KSym Commutes_symbol)
        = None
   \<and> (\<exists>stC stP stO st'. Commutes (VRef 0) (snd (new_object [(KStr ''state'', Data (VArr []))] empty_state))
              = Done (VRef 0, stC)
        \<and> Propagates 0 test_env (VRef 0) stC = Done (VRef 0, stP)
        \<and> u_override_propagate (F_user 1) (VRef 0) stP = Done (VRef 0, stO)
        \<and> invoke (Suc (Suc (Suc (Suc 0)))) test_env (KStr ''commute'') (VRef 0) (F_user 0) stO
              = Done (VArr [smoke, VArr [VNum 0]], st'))"
  using override_propagate_commute [where r = 0 and s = "VArr []" and m = 0 and k = "Suc 0"
      and E = test_env and f = "F_user 1"
      and st = "snd (new_object [(KStr ''state'', Data (VArr []))] empty_state)"]
  by (auto simp add: new_object_def empty_state_def attach_defs get_def push_0_def emit_smoke_def
      peek_def u_commute_def update_def test_env_def invoke_def u_proxy_commute_def
      propagating_commute_def)

section \<open>The tree with one tracked leaf\<close>

text \<open>
  C2. The parent \<^verbatim>\<open>{ height: 100, leaf: Leaf('green') }\<close> with
  \<^verbatim>\<open>TracksPropagation(['leaf'])\<close> applied, in both variants: the commit of the tracked leaf
  with the updater that toggles the colour returns a parent that is not the tracked
  parent, whose height is 100 and whose leaf has the colour brown, while the tracked
  parent still has the height 100 and a green leaf. The same commit on the leaf of the
  parent returned returns a third parent, whose height is 100 and whose leaf is green
  again; the second parent keeps its brown leaf and the first its green one.
\<close>

theorem tree_turns_brown_and_back:
  "turned_once (Suc (Suc (Suc (Suc n)))) test_env
       (Tree_js (Suc (Suc (Suc (Suc n)))) test_env empty_state)
     = Done (False, (VNum 100, VStr ''brown''), (VNum 100, VStr ''green''))
 \<and> turned_twice (Suc (Suc (Suc (Suc n)))) test_env
       (Tree_js (Suc (Suc (Suc (Suc n)))) test_env empty_state)
     = Done (False, False, (VNum 100, VStr ''green''), (VNum 100, VStr ''brown''),
             (VNum 100, VStr ''green''))
 \<and> turned_once (Suc (Suc (Suc (Suc n)))) test_env
       (Tree1 (Suc (Suc (Suc (Suc n)))) test_env [''leaf''] empty_state)
     = Done (False, (VNum 100, VStr ''brown''), (VNum 100, VStr ''green''))
 \<and> turned_twice (Suc (Suc (Suc (Suc n)))) test_env
       (Tree1 (Suc (Suc (Suc (Suc n)))) test_env [''leaf''] empty_state)
     = Done (False, False, (VNum 100, VStr ''green''), (VNum 100, VStr ''brown''),
             (VNum 100, VStr ''green''))"
  by (simp add: run_defs test_defs)

section \<open>A listed key that the parent does not have\<close>

text \<open>
  C8. When \<^verbatim>\<open>_track_key\<close> reaches a key that the parent does not have, in either
  variant: the diagnostic is recorded and the same parent is returned, with no object of
  the store changed (no override installed, no ledger entry added; \<^verbatim>\<open>index.mjs\<close> has
  created the symbol it does not use). The keys that follow are then tracked on that
  parent as if the absent key had not been listed.
\<close>

theorem absent_key_skipped:
  assumes "\<not> has (KStr k) (VRef r) st"
  shows "u_track_key_js n E k (VRef r) st = Done (VRef r, st\<lparr>diag := diag st @ [track_msg k]\<rparr>)
       \<and> u_track_key n E k (VRef r) st
           = Done (VRef r, st\<lparr>diag := diag st @ [track_msg k], symctr := Suc (symctr st)\<rparr>)
       \<and> TracksPropagation_js n E (k # ks) (VRef r) st
           = TracksPropagation_js n E ks (VRef r) (st\<lparr>diag := diag st @ [track_msg k]\<rparr>)
       \<and> TracksPropagation n E (k # ks) (VRef r) st
           = TracksPropagation n E ks (VRef r)
               (st\<lparr>diag := diag st @ [track_msg k], symctr := Suc (symctr st)\<rparr>)"
proof -
  have a: "heap st r (KStr k) = None" using assms by (simp add: has_def)
  have 1: "u_track_key_js n E k (VRef r) st = Done (VRef r, st\<lparr>diag := diag st @ [track_msg k]\<rparr>)"
    using a by (rule u_track_key_js_absent)
  have 2: "u_track_key n E k (VRef r) st
           = Done (VRef r, st\<lparr>diag := diag st @ [track_msg k], symctr := Suc (symctr st)\<rparr>)"
    using a by (rule u_track_key_absent)
  have 3: "TracksPropagation_js n E (k # ks) (VRef r) st
           = TracksPropagation_js n E ks (VRef r) (st\<lparr>diag := diag st @ [track_msg k]\<rparr>)"
    by (simp add: TracksPropagation_js_def 1)
  let ?st0 = "ledger_reset r st"
  let ?st2 = "st\<lparr>diag := diag st @ [track_msg k], symctr := Suc (symctr st)\<rparr>"
  have "heap ?st0 r (KStr k) = None" using a by simp
  then have step0: "u_track_key n E k (VRef r) ?st0
           = Done (VRef r, ?st0\<lparr>diag := diag ?st0 @ [track_msg k], symctr := Suc (symctr ?st0)\<rparr>)"
    by (rule u_track_key_absent)
  have e: "?st0\<lparr>diag := diag ?st0 @ [track_msg k], symctr := Suc (symctr ?st0)\<rparr> = ledger_reset r ?st2"
    by (simp add: ledger_reset_def)
  have "TracksPropagation n E (k # ks) (VRef r) st
      = fold_res (u_track_key n E) ks (VRef r)
          (?st0\<lparr>diag := diag ?st0 @ [track_msg k], symctr := Suc (symctr ?st0)\<rparr>)"
    by (simp add: TracksPropagation_fold step0 del: ledger_reset_simps)
  also have "\<dots> = TracksPropagation n E ks (VRef r) ?st2"
    unfolding e by (simp only: TracksPropagation_fold)
  finally have 4: "TracksPropagation n E (k # ks) (VRef r) st = TracksPropagation n E ks (VRef r) ?st2" .
  from 1 2 3 4 show ?thesis by simp
qed

text \<open>
  Tracking \<^verbatim>\<open>leaf\<close> on \<^verbatim>\<open>{ height: 100 }\<close> returns the parent given, with an empty
  ledger in \<^verbatim>\<open>index.mjs\<close>.
\<close>

theorem absent_key_skipped_witness:
  "\<not> has (KStr ''leaf'') (VRef 0) (snd (new_object [(KStr ''height'', Data (VNum 100))] empty_state))
   \<and> same_reference (Done (new_object [(KStr ''height'', Data (VNum 100))] empty_state))
        (TracksPropagation 0 test_env [''leaf'']) = Done True
   \<and> same_reference (Done (new_object [(KStr ''height'', Data (VNum 100))] empty_state))
        (TracksPropagation_js 0 test_env [''leaf'']) = Done True
   \<and> ledger_keys_of (bind_res (Done (new_object [(KStr ''height'', Data (VNum 100))] empty_state))
        (\<lambda>(t, st). TracksPropagation 0 test_env [''leaf''] t st)) = Done []"
  using absent_key_skipped [where k = "''leaf''" and r = 0 and n = 0 and E = test_env and ks = "[]"
      and st = "snd (new_object [(KStr ''height'', Data (VNum 100))] empty_state)"]
  by (simp add: run_defs test_defs)

section \<open>The order of the ledger\<close>

text \<open>
  C6, as stated (the keys read from the ledger are the keys passed, for every list of
  keys and every parent), fails on a parent that lacks a listed key: the parent
  \<^verbatim>\<open>{ leaf, height }\<close> tracked with \<^verbatim>\<open>['leaf', 'leaf2']\<close> has the ledger keys
  \<^verbatim>\<open>['leaf']\<close>.
\<close>

theorem ledger_keys_counterexample:
  "ledger_keys_of (Tree1 0 test_env [''leaf'', ''leaf2''] empty_state) = Done [VStr ''leaf'']
   \<and> ledger_keys_of (Tree1 0 test_env [''leaf'', ''leaf2''] empty_state)
       \<noteq> Done [VStr ''leaf'', VStr ''leaf2'']"
  by (simp add: run_defs test_defs)

text \<open>
  C6, amended. For every list of keys and every parent: whenever
  \<^verbatim>\<open>TracksPropagation(keys)(parent)\<close> of \<^verbatim>\<open>index.mjs\<close> returns, the keys of the ledger
  of the parent returned, read in order, are the listed keys that the given parent has,
  in the order they were passed, a key listed twice being read twice: the whole list when
  the parent has them all. It returns when a getter can be called and every listed key
  is absent, a value field that can be redefined, or a key tracked before; it throws
  on a key that cannot be redefined, the public \<^verbatim>\<open>commute\<close> of a node that commutes.
  Whenever \<^verbatim>\<open>TracksPropagation\<close> of \<^verbatim>\<open>index.js\<close> returns, the field of the tracking
  symbol of the parent returned is that of the parent given: it keeps no ledger. It
  returns when every listed key is absent or a value field.
\<close>

theorem ledger_keys_in_order:
  assumes "r < nxt st"
  shows "(\<forall>v st'. TracksPropagation n E keys (VRef r) st = Done (v, st') \<longrightarrow>
            tracked_keys st' v = map VStr (filter (\<lambda>k. has (KStr k) (VRef r) st) keys))
       \<and> (0 < n \<and> list_all (trackable st r) keys \<longrightarrow>
            (\<exists>v st'. TracksPropagation n E keys (VRef r) st = Done (v, st')))
       \<and> (\<forall>v st'. TracksPropagation_js n E keys (VRef r) st = Done (v, st') \<longrightarrow>
            (\<exists>p. v = VRef p
               \<and> heap st' p (KSym tracking_symbol) = heap st r (KSym tracking_symbol)))
       \<and> (list_all (plain_key st r) keys \<longrightarrow>
            (\<exists>v st'. TracksPropagation_js n E keys (VRef r) st = Done (v, st')))"
proof (intro conjI allI impI)
  fix v st' assume d: "TracksPropagation n E keys (VRef r) st = Done (v, st')"
  from TracksPropagation_inv[OF assms d] obtain p js where v: "v = VRef p"
    and I: "track_inv (ledger_reset r st) r keys p st' js"
    by blast
  from track_inv_ledger(2)[OF I] v
  show "tracked_keys st' v = map VStr (filter (\<lambda>k. has (KStr k) (VRef r) st) keys)"
    by (simp add: has_def)
next
  assume "0 < n \<and> list_all (trackable st r) keys"
  then show "\<exists>v st'. TracksPropagation n E keys (VRef r) st = Done (v, st')"
    using TracksPropagation_total[OF assms] by blast
next
  fix v st' assume d: "TracksPropagation_js n E keys (VRef r) st = Done (v, st')"
  from TracksPropagation_js_inv[OF assms d]
  show "\<exists>p. v = VRef p \<and> heap st' p (KSym tracking_symbol) = heap st r (KSym tracking_symbol)"
    by (auto simp: track_inv_js_def)
next
  assume "list_all (plain_key st r) keys"
  then show "\<exists>v st'. TracksPropagation_js n E keys (VRef r) st = Done (v, st')"
    using TracksPropagation_js_total[OF assms] by blast
qed

text \<open>
  The test of the source: the ledger keys of \<^verbatim>\<open>Tree()\<close> are \<^verbatim>\<open>['leaf', 'leaf2']\<close>.
  Tracking \<^verbatim>\<open>['leaf', 'leaf']\<close> gives the ledger keys \<^verbatim>\<open>['leaf', 'leaf']\<close>. Tracking
  \<^verbatim>\<open>['commute']\<close> on the leaf, which commutes, throws.
\<close>

theorem ledger_keys_in_order_witness:
  "\<exists>st. Parent2 (Suc 0) test_env empty_state = Done (VRef 2, st)
     \<and> 2 < nxt st \<and> list_all (trackable st 2) [''leaf'', ''leaf2'']
     \<and> list_all (plain_key st 2) [''leaf'', ''leaf2'']
     \<and> (\<exists>p st'. TracksPropagation (Suc 0) test_env [''leaf'', ''leaf2''] (VRef 2) st = Done (VRef p, st')
            \<and> tracked_keys st' (VRef p) = [VStr ''leaf'', VStr ''leaf2''])
     \<and> (\<exists>p st'. TracksPropagation (Suc 0) test_env [''leaf'', ''leaf''] (VRef 2) st = Done (VRef p, st')
            \<and> tracked_keys st' (VRef p) = [VStr ''leaf'', VStr ''leaf''])
     \<and> (\<exists>p st'. TracksPropagation_js (Suc 0) test_env [''leaf'', ''leaf2''] (VRef 2) st = Done (VRef p, st')
            \<and> heap st' p (KSym tracking_symbol) = None)
     \<and> \<not> trackable st 0 ''commute''
     \<and> TracksPropagation (Suc 0) test_env [''commute''] (VRef 0) st = TypeError"
  using ledger_keys_in_order [where keys = "[''leaf'', ''leaf2'']" and r = 2 and n = "Suc 0"
      and E = test_env
      and st = "snd (case Parent2 (Suc 0) test_env empty_state of Done x \<Rightarrow> x
                      | _ \<Rightarrow> (VUndef, empty_state))"]
  by (simp add: run_defs test_defs trackable_def plain_key_def)

section \<open>Reading a tracked key\<close>




section \<open>The references that the attachment operations return\<close>

text \<open>
  C10, as stated (also \<^verbatim>\<open>TracksPropagation\<close> returns the reference it was given, and
  no copy is made), fails: tracking \<^verbatim>\<open>leaf\<close> on \<^verbatim>\<open>{ leaf, height }\<close> returns an object
  that is not the parent given, in both variants.
\<close>

theorem attachment_copy_counterexample:
  "same_reference (Parent1 0 test_env empty_state) (TracksPropagation 0 test_env [''leaf'']) = Done False
   \<and> same_reference (Parent1_js 0 test_env empty_state) (TracksPropagation_js 0 test_env [''leaf''])
       = Done False"
  by (simp add: run_defs test_defs)

text \<open>
  C10, amended. \<^verbatim>\<open>Commutes\<close> (both variants) and the override utility return the
  reference they were given and create no object: when the precondition holds, the
  object is augmented in place (the private commit field and the public \<^verbatim>\<open>commute\<close>;
  the replacement in the field overridden) and nothing else changes; when it fails, only
  the diagnostic is recorded. \<^verbatim>\<open>Propagates\<close> returns the reference it was given whenever
  it returns; on a node without the private commit field it only records the diagnostic,
  and on a node whose private commit field holds a value it sets, in place, the
  propagate field to the identity and the private commit field to the wrapper of that
  value, and nothing else changes. \<^verbatim>\<open>TracksPropagation\<close> (both variants), whenever it
  returns, returns the reference it was given, having created no object, exactly when
  the parent has none of the listed keys (\<^verbatim>\<open>index.mjs\<close> has then set the ledger of that
  parent to the empty array, in place); otherwise the parent it returns is an object
  created by the call. It returns on the keys named in C6.
\<close>

theorem attachment_returns_reference:
  assumes "r < nxt st"
  shows "Commutes_js (VRef r) st
           = Done (VRef r,
               if has (KStr ''state'') (VRef r) st
               then st\<lparr>heap := (heap st)(r := (heap st r)
                         (KSym Commutes_symbol \<mapsto> Data F_commute,
                          KStr ''commute'' \<mapsto> Data F_proxy_commute))\<rparr>
               else st\<lparr>diag := diag st
                         @ [''The `target` object of `Commutes` must have a state key!'']\<rparr>)
       \<and> Commutes (VRef r) st
           = Done (VRef r,
               if has (KStr ''state'') (VRef r) st \<and> \<not> has (KSym Commutes_symbol) (VRef r) st
               then st\<lparr>heap := (heap st)(r := (heap st r)
                         (KSym Commutes_symbol \<mapsto> Data F_commute,
                          KStr ''commute'' \<mapsto> Data F_proxy_commute))\<rparr>
               else st\<lparr>diag := diag st
                         @ (if has (KStr ''state'') (VRef r) st then []
                            else [''The `target` object of `Commutes` must have a state key!''])
                         @ (if has (KSym Commutes_symbol) (VRef r) st
                            then [''Commutes: `target` is already `Commutes`!''] else [])\<rparr>)
       \<and> override_internal symbol f (VRef r) st
           = Done (VRef r,
               if has (KSym symbol) (VRef r) st
               then st\<lparr>heap := (heap st)(r := (heap st r)(KSym symbol \<mapsto> Data f))\<rparr>
               else st\<lparr>diag := diag st
                         @ [''override_internal: '' @ sym_toString symbol @ '' does not exist!'']\<rparr>)
       \<and> (\<forall>t st'. Propagates n E (VRef r) st = Done (t, st') \<longrightarrow> t = VRef r)
       \<and> (\<not> has (KSym Commutes_symbol) (VRef r) st \<longrightarrow>
            Propagates n E (VRef r) st
              = Done (VRef r, st\<lparr>diag := diag st
                         @ [''The `target` object of `Propagates` must also be `Commutes`!'']\<rparr>))
       \<and> (\<forall>c. heap st r (KSym Commutes_symbol) = Some (Data c) \<longrightarrow>
            Propagates n E (VRef r) st
              = Done (VRef r, st\<lparr>heap := (heap st)(r := (heap st r)
                         (KSym Propagates_symbol \<mapsto> Data F_id,
                          KSym Commutes_symbol \<mapsto> Data (F_propagating_commute c)))\<rparr>))
       \<and> (\<forall>v st'. TracksPropagation_js n E keys (VRef r) st = Done (v, st') \<longrightarrow>
            (\<exists>p. v = VRef p
               \<and> (if list_all (\<lambda>k. \<not> has (KStr k) (VRef r) st) keys
                   then p = r \<and> nxt st' = nxt st
                   else p \<noteq> r \<and> nxt st \<le> p \<and> p < nxt st')))
       \<and> (\<forall>v st'. TracksPropagation n E keys (VRef r) st = Done (v, st') \<longrightarrow>
            (\<exists>p. v = VRef p
               \<and> (if list_all (\<lambda>k. \<not> has (KStr k) (VRef r) st) keys
                   then p = r \<and> nxt st' = nxt st
                      \<and> heap st' r (KSym tracking_symbol) = Some (Data (VArr []))
                   else p \<noteq> r \<and> nxt st \<le> p \<and> p < nxt st')))
       \<and> (list_all (plain_key st r) keys \<longrightarrow>
            (\<exists>v st'. TracksPropagation_js n E keys (VRef r) st = Done (v, st')))
       \<and> (0 < n \<and> list_all (trackable st r) keys \<longrightarrow>
            (\<exists>v st'. TracksPropagation n E keys (VRef r) st = Done (v, st')))"
proof -
  have A: "Commutes_js (VRef r) st
           = Done (VRef r,
               if has (KStr ''state'') (VRef r) st
               then st\<lparr>heap := (heap st)(r := (heap st r)
                         (KSym Commutes_symbol \<mapsto> Data F_commute,
                          KStr ''commute'' \<mapsto> Data F_proxy_commute))\<rparr>
               else st\<lparr>diag := diag st
                         @ [''The `target` object of `Commutes` must have a state key!'']\<rparr>)"
    by (auto simp add: attach_defs)
  have B: "Commutes (VRef r) st
           = Done (VRef r,
               if has (KStr ''state'') (VRef r) st \<and> \<not> has (KSym Commutes_symbol) (VRef r) st
               then st\<lparr>heap := (heap st)(r := (heap st r)
                         (KSym Commutes_symbol \<mapsto> Data F_commute,
                          KStr ''commute'' \<mapsto> Data F_proxy_commute))\<rparr>
               else st\<lparr>diag := diag st
                         @ (if has (KStr ''state'') (VRef r) st then []
                            else [''The `target` object of `Commutes` must have a state key!''])
                         @ (if has (KSym Commutes_symbol) (VRef r) st
                            then [''Commutes: `target` is already `Commutes`!''] else [])\<rparr>)"
    by (auto simp add: attach_defs)
  have C: "override_internal symbol f (VRef r) st
           = Done (VRef r,
               if has (KSym symbol) (VRef r) st
               then st\<lparr>heap := (heap st)(r := (heap st r)(KSym symbol \<mapsto> Data f))\<rparr>
               else st\<lparr>diag := diag st
                         @ [''override_internal: '' @ sym_toString symbol @ '' does not exist!'']\<rparr>)"
    by (auto simp add: attach_defs)
  have D: "\<forall>t st'. Propagates n E (VRef r) st = Done (t, st') \<longrightarrow> t = VRef r"
  proof (intro allI impI)
    fix t st' assume d: "Propagates n E (VRef r) st = Done (t, st')"
    show "t = VRef r"
    proof (cases "has (KSym Commutes_symbol) (VRef r) st")
      case False
      with d show ?thesis by (simp add: Propagates_def console_assert_def has_def Let_def)
    next
      case True
      with d obtain c s1 s2 where
        "override_internal Commutes_symbol (F_propagating_commute c) (VRef r) s1 = Done (t, s2)"
        by (auto simp: Propagates_def console_assert_def has_def Let_def define_property_mut_def
            fixed_def u_wrap_commute_def u_override_commute_def bind_res_eq_Done)
      with override_internal_Done[of Commutes_symbol "F_propagating_commute c" "VRef r" s1]
      show ?thesis by auto
    qed
  qed
  have E: "\<not> has (KSym Commutes_symbol) (VRef r) st \<longrightarrow>
            Propagates n E (VRef r) st
              = Done (VRef r, st\<lparr>diag := diag st
                         @ [''The `target` object of `Propagates` must also be `Commutes`!'']\<rparr>)"
    by (simp add: attach_defs)
  have F: "\<forall>c. heap st r (KSym Commutes_symbol) = Some (Data c) \<longrightarrow>
            Propagates n E (VRef r) st
              = Done (VRef r, st\<lparr>heap := (heap st)(r := (heap st r)
                         (KSym Propagates_symbol \<mapsto> Data F_id,
                          KSym Commutes_symbol \<mapsto> Data (F_propagating_commute c)))\<rparr>)"
    by (simp add: attach_defs get_def)
  have filt: "list_all (\<lambda>k. \<not> has (KStr k) (VRef r) st) keys
       \<longleftrightarrow> filter (\<lambda>k. heap st r (KStr k) \<noteq> None) keys = []"
    by (simp add: has_def list_all_iff filter_empty_conv)
  have G: "\<forall>v st'. TracksPropagation_js n E keys (VRef r) st = Done (v, st') \<longrightarrow>
            (\<exists>p. v = VRef p
               \<and> (if list_all (\<lambda>k. \<not> has (KStr k) (VRef r) st) keys
                   then p = r \<and> nxt st' = nxt st
                   else p \<noteq> r \<and> nxt st \<le> p \<and> p < nxt st'))"
  proof (intro allI impI)
    fix v st' assume d: "TracksPropagation_js n E keys (VRef r) st = Done (v, st')"
    from TracksPropagation_js_inv[OF assms d] obtain p where v: "v = VRef p"
      and I: "track_inv_js st r keys p st'"
      by blast
    from I assms have "if filter (\<lambda>k. heap st r (KStr k) \<noteq> None) keys = []
        then p = r \<and> nxt st' = nxt st else p \<noteq> r \<and> nxt st \<le> p \<and> p < nxt st'"
      by (auto simp: track_inv_js_def)
    with v show "\<exists>p. v = VRef p
               \<and> (if list_all (\<lambda>k. \<not> has (KStr k) (VRef r) st) keys
                   then p = r \<and> nxt st' = nxt st
                   else p \<noteq> r \<and> nxt st \<le> p \<and> p < nxt st')"
      unfolding filt by blast
  qed
  have H: "\<forall>v st'. TracksPropagation n E keys (VRef r) st = Done (v, st') \<longrightarrow>
            (\<exists>p. v = VRef p
               \<and> (if list_all (\<lambda>k. \<not> has (KStr k) (VRef r) st) keys
                   then p = r \<and> nxt st' = nxt st
                      \<and> heap st' r (KSym tracking_symbol) = Some (Data (VArr []))
                   else p \<noteq> r \<and> nxt st \<le> p \<and> p < nxt st'))"
  proof (intro allI impI)
    fix v st' assume d: "TracksPropagation n E keys (VRef r) st = Done (v, st')"
    from TracksPropagation_inv[OF assms d] obtain p js where v: "v = VRef p"
      and I: "track_inv (ledger_reset r st) r keys p st' js"
      by blast
    from I have mf: "map fst js = filter (\<lambda>k. heap st r (KStr k) \<noteq> None) keys"
      and l: "heap st' p (KSym tracking_symbol) = Some (Data (VArr (map (\<lambda>(k, j). ledger_entry k j) js)))"
      and pn: "p < nxt st'"
      and i: "if js = [] then p = r \<and> nxt st' = nxt st else nxt st \<le> p"
      by (auto simp: track_inv_def split: if_splits)
    have e: "js = [] \<longleftrightarrow> filter (\<lambda>k. heap st r (KStr k) \<noteq> None) keys = []"
      using mf by (metis map_is_Nil_conv)
    have "if filter (\<lambda>k. heap st r (KStr k) \<noteq> None) keys = []
          then p = r \<and> nxt st' = nxt st \<and> heap st' r (KSym tracking_symbol) = Some (Data (VArr []))
          else p \<noteq> r \<and> nxt st \<le> p \<and> p < nxt st'"
      using i l pn assms unfolding e[symmetric] by auto
    with v show "\<exists>p. v = VRef p
               \<and> (if list_all (\<lambda>k. \<not> has (KStr k) (VRef r) st) keys
                   then p = r \<and> nxt st' = nxt st
                      \<and> heap st' r (KSym tracking_symbol) = Some (Data (VArr []))
                   else p \<noteq> r \<and> nxt st \<le> p \<and> p < nxt st')"
      unfolding filt by blast
  qed
  have J: "list_all (plain_key st r) keys \<longrightarrow>
            (\<exists>v st'. TracksPropagation_js n E keys (VRef r) st = Done (v, st'))"
    using TracksPropagation_js_total[OF assms] by blast
  have K: "0 < n \<and> list_all (trackable st r) keys \<longrightarrow>
            (\<exists>v st'. TracksPropagation n E keys (VRef r) st = Done (v, st'))"
    using TracksPropagation_total[OF assms] by blast
  from A B C D E F G H J K show ?thesis by blast
qed

text \<open>
  On the parent \<^verbatim>\<open>{ leaf, height }\<close>, at address 1, which has no state: \<^verbatim>\<open>Commutes\<close>
  and \<^verbatim>\<open>Propagates\<close> return address 1 and change no object; tracking \<^verbatim>\<open>leaf\<close>
  returns address 2; tracking only the absent \<^verbatim>\<open>leaf2\<close> returns address 1. On the
  leaf, at address 0, \<^verbatim>\<open>Propagates.override\<close> puts the replacement into the propagate
  field of the leaf.
\<close>

theorem attachment_returns_reference_witness:
  "\<exists>st. Parent1 (Suc 0) test_env empty_state = Done (VRef 1, st)
     \<and> 1 < nxt st \<and> 0 < nxt st
     \<and> list_all (plain_key st 1) [''leaf'', ''leaf2'']
     \<and> list_all (trackable st 1) [''leaf'', ''leaf2'']
     \<and> (\<exists>st'. Commutes (VRef 1) st = Done (VRef 1, st') \<and> heap st' = heap st)
     \<and> (\<exists>st'. Commutes_js (VRef 1) st = Done (VRef 1, st') \<and> heap st' = heap st)
     \<and> (\<exists>st'. Propagates (Suc 0) test_env (VRef 1) st = Done (VRef 1, st') \<and> heap st' = heap st)
     \<and> (\<exists>st'. TracksPropagation (Suc 0) test_env [''leaf'', ''leaf2''] (VRef 1) st = Done (VRef 2, st'))
     \<and> (\<exists>st'. TracksPropagation_js (Suc 0) test_env [''leaf'', ''leaf2''] (VRef 1) st = Done (VRef 2, st'))
     \<and> (\<exists>st'. TracksPropagation (Suc 0) test_env [''leaf2''] (VRef 1) st = Done (VRef 1, st')
            \<and> heap st' 1 (KSym tracking_symbol) = Some (Data (VArr [])))"
  using attachment_returns_reference [where keys = "[''leaf'', ''leaf2'']" and r = 1 and n = "Suc 0"
      and E = test_env and symbol = Propagates_symbol and f = "F_user 1"
      and st = "snd (case Parent1 (Suc 0) test_env empty_state of Done x \<Rightarrow> x
                      | _ \<Rightarrow> (VUndef, empty_state))"]
  by (simp add: run_defs test_defs plain_key_def trackable_def)
section \<open>Two tracked siblings\<close>

text \<open>
  C1, as stated for every tracked parent, fails in \<^verbatim>\<open>index.js\<close>, where
  \<^verbatim>\<open>propagate_up\<close> writes into the parent captured when the key was tracked: with two
  green leaves tracked, turning \<^verbatim>\<open>leaf\<close> and then \<^verbatim>\<open>leaf2\<close> of the parent returned gives
  a parent whose \<^verbatim>\<open>leaf2\<close> is brown and whose \<^verbatim>\<open>leaf\<close> is green again.
\<close>

theorem cross_talk_js_counterexample:
  "two_turns (Suc (Suc (Suc (Suc 0)))) test_env (Tree2_js 0 test_env empty_state)
     = Done (VStr ''green'', VStr ''brown'')"
  by (simp add: run_defs test_defs)

text \<open>
  C1, amended to \<^verbatim>\<open>index.mjs\<close>. Let a parent \<open>p\<close> track two different keys \<open>a\<close> and \<open>b\<close>
  (each key holds the getter of \<^verbatim>\<open>_track_key\<close> for its symbol, and the symbol holds the
  child), the children being nodes that commute and propagate, with the states \<open>va\<close> and
  \<open>vb\<close>, whatever their propagate fields hold. Then:

  \<^item> the commit of an updater on the child read at \<open>a\<close> returns a new parent that tracks
    \<open>a\<close> with a new child, whose state is the updater applied to \<open>va\<close>, and tracks \<open>b\<close> with
    the child it had, whose state is still \<open>vb\<close>; the parent \<open>p\<close> and its two children are
    as they were. The parent returned is therefore again such a parent, for the next
    commit, on either key;

  \<^item> after every sequence of commits on \<open>a\<close> and \<open>b\<close>, each on the parent that the commit
    before returned, with updaters that do not read the store, the parent returned tracks
    at \<open>a\<close> a child whose state is \<open>va\<close> with the updaters committed on \<open>a\<close> applied in their
    order, and at \<open>b\<close> a child whose state is \<open>vb\<close> with the updaters committed on \<open>b\<close>
    applied in their order;

  \<^item> such parents are what \<^verbatim>\<open>TracksPropagation\<close> returns: whenever it returns, on a parent
    given with two listed keys that hold nodes which commute and propagate, the parent
    returned tracks the two keys with those nodes; and \<^verbatim>\<open>Commutes\<close> and then
    \<^verbatim>\<open>Propagates\<close> on a node with a state make it a node that commutes and propagates.
\<close>

theorem no_cross_talk:
  assumes "tracks st p a ja ca" and "tracks st p b jb cb" and "a \<noteq> b"
    and "commuting st ca va" and "commuting st cb vb"
  shows "(\<exists>st1. commit_key (Suc (Suc (Suc (Suc n)))) E a i (VRef p) st
                  = Done (VRef (Suc (nxt st)), st1)
            \<and> nxt st1 = Suc (Suc (nxt st))
            \<and> tracks st1 (Suc (nxt st)) a ja (nxt st)
            \<and> commuting st1 (nxt st)
                (E i (st\<lparr>heap := (heap st)(ca := (heap st ca)(KSym Propagates_symbol
                         \<mapsto> Data (F_propagate_up (tracked_child ja a) (VRef p))))\<rparr>) va)
            \<and> tracks st1 (Suc (nxt st)) b jb cb \<and> commuting st1 cb vb
            \<and> tracks st1 p a ja ca \<and> tracks st1 p b jb cb \<and> commuting st1 ca va)
       \<and> ((\<forall>(k, i)\<in>set ks. (k = a \<or> k = b) \<and> (\<forall>s v. E i s v = U i v)) \<longrightarrow>
            (\<exists>p' ca' cb' st'.
                commits (Suc (Suc (Suc (Suc n)))) E ks (VRef p) st = Done (VRef p', st')
              \<and> tracks st' p' a ja ca' \<and> tracks st' p' b jb cb'
              \<and> commuting st' ca' (fold U (map snd (filter (\<lambda>(k, i). k = a) ks)) va)
              \<and> commuting st' cb' (fold U (map snd (filter (\<lambda>(k, i). k = b) ks)) vb)))
       \<and> (\<forall>r st0 keys m tree stT xa xb sa sb.
              r < nxt st0 \<and> a \<in> set keys \<and> b \<in> set keys
              \<and> heap st0 r (KStr a) = Some (Data (VRef xa))
              \<and> heap st0 r (KStr b) = Some (Data (VRef xb))
              \<and> commuting st0 xa sa \<and> commuting st0 xb sb
              \<and> TracksPropagation m E keys (VRef r) st0 = Done (tree, stT) \<longrightarrow>
                (\<exists>q ja' jb'. tree = VRef q
                   \<and> tracks stT q a ja' xa \<and> tracks stT q b jb' xb
                   \<and> commuting stT xa sa \<and> commuting stT xb sb))
       \<and> (\<forall>c s0 stA m.
              c < nxt stA \<and> heap stA c (KStr ''state'') = Some (Data s0)
              \<and> heap stA c (KSym Commutes_symbol) = None \<longrightarrow>
                (\<exists>stC stP. Commutes (VRef c) stA = Done (VRef c, stC)
                   \<and> Propagates m E (VRef c) stC = Done (VRef c, stP) \<and> commuting stP c s0))"
proof (intro conjI)
  show "\<exists>st1. commit_key (Suc (Suc (Suc (Suc n)))) E a i (VRef p) st
                  = Done (VRef (Suc (nxt st)), st1)
            \<and> nxt st1 = Suc (Suc (nxt st))
            \<and> tracks st1 (Suc (nxt st)) a ja (nxt st)
            \<and> commuting st1 (nxt st)
                (E i (st\<lparr>heap := (heap st)(ca := (heap st ca)(KSym Propagates_symbol
                         \<mapsto> Data (F_propagate_up (tracked_child ja a) (VRef p))))\<rparr>) va)
            \<and> tracks st1 (Suc (nxt st)) b jb cb \<and> commuting st1 cb vb
            \<and> tracks st1 p a ja ca \<and> tracks st1 p b jb cb \<and> commuting st1 ca va"
    using assms by (rule commit_step)
next
  show "(\<forall>(k, i)\<in>set ks. (k = a \<or> k = b) \<and> (\<forall>s v. E i s v = U i v)) \<longrightarrow>
            (\<exists>p' ca' cb' st'.
                commits (Suc (Suc (Suc (Suc n)))) E ks (VRef p) st = Done (VRef p', st')
              \<and> tracks st' p' a ja ca' \<and> tracks st' p' b jb cb'
              \<and> commuting st' ca' (fold U (map snd (filter (\<lambda>(k, i). k = a) ks)) va)
              \<and> commuting st' cb' (fold U (map snd (filter (\<lambda>(k, i). k = b) ks)) vb))"
    using commits_run[OF assms] by blast
next
  show "\<forall>r st0 keys m tree stT xa xb sa sb.
              r < nxt st0 \<and> a \<in> set keys \<and> b \<in> set keys
              \<and> heap st0 r (KStr a) = Some (Data (VRef xa))
              \<and> heap st0 r (KStr b) = Some (Data (VRef xb))
              \<and> commuting st0 xa sa \<and> commuting st0 xb sb
              \<and> TracksPropagation m E keys (VRef r) st0 = Done (tree, stT) \<longrightarrow>
                (\<exists>q ja' jb'. tree = VRef q
                   \<and> tracks stT q a ja' xa \<and> tracks stT q b jb' xb
                   \<and> commuting stT xa sa \<and> commuting stT xb sb)"
  proof (intro allI impI, elim conjE)
    fix r st0 keys m tree stT xa xb sa sb
    assume r: "r < nxt st0" and a: "a \<in> set keys" and b: "b \<in> set keys"
      and ha: "heap st0 r (KStr a) = Some (Data (VRef xa))"
      and hb: "heap st0 r (KStr b) = Some (Data (VRef xb))"
      and ca: "commuting st0 xa sa" and cb: "commuting st0 xb sb"
      and d: "TracksPropagation m E keys (VRef r) st0 = Done (tree, stT)"
    from tracking_tracks[OF r d a ha] obtain q ja' where q: "tree = VRef q"
      and ta: "tracks stT q a ja' xa"
      by blast
    from tracking_tracks[OF r d b hb] q obtain jb' where tb: "tracks stT q b jb' xb"
      by auto
    from q ta tb tracking_commuting[OF r d ca] tracking_commuting[OF r d cb]
    show "\<exists>q ja' jb'. tree = VRef q
                   \<and> tracks stT q a ja' xa \<and> tracks stT q b jb' xb
                   \<and> commuting stT xa sa \<and> commuting stT xb sb"
      by blast
  qed
next
  show "\<forall>c s0 stA m.
              c < nxt stA \<and> heap stA c (KStr ''state'') = Some (Data s0)
              \<and> heap stA c (KSym Commutes_symbol) = None \<longrightarrow>
                (\<exists>stC stP. Commutes (VRef c) stA = Done (VRef c, stC)
                   \<and> Propagates m E (VRef c) stC = Done (VRef c, stP) \<and> commuting stP c s0)"
    using attach_commuting by blast
qed

text \<open>
  On \<^verbatim>\<open>Tree()\<close>, the parent at address 4 with the leaves at 0 and 1: after the turns
  of \<^verbatim>\<open>leaf\<close>, \<^verbatim>\<open>leaf2\<close> and \<^verbatim>\<open>leaf\<close> again the parent returned tracks a green \<^verbatim>\<open>leaf\<close>
  and a brown \<^verbatim>\<open>leaf2\<close>. The test of the source: \<^verbatim>\<open>Tree().leaf.turn().leaf2.turn()\<close>
  has two brown leaves.
\<close>

theorem no_cross_talk_witness:
  "\<exists>T. Tree (Suc (Suc (Suc (Suc 0)))) test_env empty_state = Done (VRef 4, T)
     \<and> tracks T 4 ''leaf'' 0 0 \<and> tracks T 4 ''leaf2'' 1 1 \<and> ''leaf'' \<noteq> ''leaf2''
     \<and> commuting T 0 (VObj [(''color'', VStr ''green'')])
     \<and> commuting T 1 (VObj [(''color'', VStr ''green'')])
     \<and> (\<forall>(k, i)\<in>set [(''leaf'', 2), (''leaf2'', 2), (''leaf'', 2)].
           (k = ''leaf'' \<or> k = ''leaf2'')
           \<and> (\<forall>s v. test_env i s v = turn_color empty_state v))
     \<and> (\<exists>p' ca' cb' st'.
           commits (Suc (Suc (Suc (Suc 0)))) test_env
             [(''leaf'', 2), (''leaf2'', 2), (''leaf'', 2)] (VRef 4) T = Done (VRef p', st')
         \<and> tracks st' p' ''leaf'' 0 ca' \<and> tracks st' p' ''leaf2'' 1 cb'
         \<and> commuting st' ca' (VObj [(''color'', VStr ''green'')])
         \<and> commuting st' cb' (VObj [(''color'', VStr ''brown'')]))
     \<and> two_turns (Suc (Suc (Suc (Suc 0)))) test_env
          (Tree (Suc (Suc (Suc (Suc 0)))) test_env empty_state)
         = Done (VStr ''brown'', VStr ''brown'')
     \<and> three_turns (Suc (Suc (Suc (Suc 0)))) test_env
          (Tree (Suc (Suc (Suc (Suc 0)))) test_env empty_state)
         = Done (VStr ''green'', VStr ''brown'')"
  using no_cross_talk [where p = 4 and a = "''leaf''" and ja = 0 and ca = 0
      and b = "''leaf2''" and jb = 1 and cb = 1
      and va = "VObj [(''color'', VStr ''green'')]" and vb = "VObj [(''color'', VStr ''green'')]"
      and n = 0 and E = test_env and i = 2 and U = "\<lambda>i. turn_color empty_state"
      and ks = "[(''leaf'', 2), (''leaf2'', 2), (''leaf'', 2)]"
      and st = "snd (case Tree (Suc (Suc (Suc (Suc 0)))) test_env empty_state of Done x \<Rightarrow> x
                      | _ \<Rightarrow> (VUndef, empty_state))"]
  by (simp add: run_defs test_defs tracks_def commuting_def commits_def commit_key_def)
end
